theory Spec2Isabelle
  imports Complex_Main "HOL-Library.Sublist" "HOL-Library.AList"
begin

section \<open>Python primitives used by the scraper\<close>

text \<open>
  Strings are lists of 8-bit characters and are read as ASCII text: \<open>str.lower\<close> acts on
  the letters A-Z and \<open>str.strip\<close> removes the ASCII white space of Python
  (\<open>\t \n \v \f \r\<close>, the separators 0x1c-0x1f and the blank).
  \<open>str.startswith\<close> is \<^const>\<open>prefix\<close> and \<open>str.endswith\<close> is \<^const>\<open>suffix\<close>.
\<close>

definition digits :: string where
  "digits = ''0123456789''"

definition digit_char :: "nat \<Rightarrow> char" where
  "digit_char d = digits ! d"

fun str_nat :: "nat \<Rightarrow> string" where
  "str_nat n = (if n < 10 then [digit_char n] else str_nat (n div 10) @ [digit_char (n mod 10)])"

declare str_nat.simps [simp del]

text \<open>\<open>str(n)\<close> (and \<open>f"{n}"\<close>) for a Python integer.\<close>

definition str_int :: "int \<Rightarrow> string" where
  "str_int i = (if i < 0 then CHR ''-'' # str_nat (nat (- i)) else str_nat (nat i))"

definition isspace :: "char \<Rightarrow> bool" where
  "isspace c = (let n = (of_char c :: nat) in (9 \<le> n \<and> n \<le> 13) \<or> (28 \<le> n \<and> n \<le> 32))"

definition lstrip :: "string \<Rightarrow> string" where
  "lstrip s = dropWhile isspace s"

definition rstrip :: "string \<Rightarrow> string" where
  "rstrip s = rev (dropWhile isspace (rev s))"

definition strip :: "string \<Rightarrow> string" where
  "strip s = rstrip (lstrip s)"

definition ascii_lowercase :: string where
  "ascii_lowercase = ''abcdefghijklmnopqrstuvwxyz''"

definition ascii_uppercase :: string where
  "ascii_uppercase = ''ABCDEFGHIJKLMNOPQRSTUVWXYZ''"

definition lower_char :: "char \<Rightarrow> char" where
  "lower_char c =
     (case map_of (zip ascii_uppercase ascii_lowercase) c of
        None \<Rightarrow> c
      | Some l \<Rightarrow> l)"

definition lower :: "string \<Rightarrow> string" where
  "lower s = map lower_char s"

text \<open>\<open>logging.info\<close>, \<open>logging.warning\<close> and \<open>logging.error\<close> append to a log.\<close>

datatype log_entry = LogInfo string | LogWarning string | LogError string

text \<open>
  What \<open>os.path.exists\<close> and \<open>json.load\<close> make of a JSON file: it is not there, or
  \<open>json.load\<close> raises \<open>JSONDecodeError\<close> on its text, or \<open>json.load\<close> returns a value.
  Files are text files the process may read and write; failures of the operating system
  (permissions, a full disk) are outside the model.
\<close>

datatype 'a json_file = Absent | Malformed | Parsed 'a

text \<open>\<open>os.path.join\<close> of two components (POSIX).\<close>

definition path_join :: "string \<Rightarrow> string \<Rightarrow> string" where
  "path_join a b =
     (if prefix ''/'' b then b
      else if a = [] \<or> suffix ''/'' a then a @ b
      else a @ ''/'' @ b)"

definition DATA_DIR :: string where
  "DATA_DIR = ''./data''"

definition PROGRESS_DIR :: string where
  "PROGRESS_DIR = DATA_DIR @ ''/progress''"

definition WATCHES_JSON :: string where
  "WATCHES_JSON = DATA_DIR @ ''/rolex_watches.json''"

definition BASE_URL :: string where
  "BASE_URL = ''https://www.chrono24.com''"


section \<open>Rate controller: \<open>adaptive_delay\<close>\<close>

text \<open>
  Seconds are real numbers. \<open>random.uniform(a, b)\<close> is \<open>a + (b - a) * random()\<close>; the
  draw \<open>random()\<close>, a number of the interval from 0 to 1, is an explicit argument.
\<close>

definition uniform :: "real \<Rightarrow> real \<Rightarrow> real \<Rightarrow> real" where
  "uniform a b r = a + (b - a) * r"

definition adaptive_delay :: "real \<Rightarrow> int \<Rightarrow> real \<Rightarrow> real" where
  "adaptive_delay response_time status_code r =
     (let base_delay = min (response_time * 1.5) 3.0 in
      if status_code \<ge> 429 then base_delay * 5 + uniform 10 15 r
      else if status_code \<ge> 500 then base_delay * 3 + uniform 5 10 r
      else (let jitter = uniform 0 (base_delay * 0.5) r in base_delay + jitter))"


section \<open>Progress store\<close>

text \<open>
  The progress file of a brand holds a JSON object. \<open>process_brand\<close> reads its two keys
  with \<open>dict.get\<close> and a default, so each key may be missing; of the list under
  \<open>processed_urls\<close> only the set of its elements is ever used.
\<close>

record progress =
  current_page :: "int option"
  processed_urls :: "string set option"

type_synonym progress_files = "string \<Rightarrow> progress json_file"

definition progress_file :: "string \<Rightarrow> string" where
  "progress_file brand_name = path_join PROGRESS_DIR (brand_name @ ''_progress.json'')"

definition load_progress :: "progress_files \<Rightarrow> string \<Rightarrow> progress \<times> log_entry list" where
  "load_progress files brand_name =
     (case files (progress_file brand_name) of
        Absent \<Rightarrow> (\<lparr>current_page = Some 1, processed_urls = Some {}\<rparr>, [])
      | Parsed p \<Rightarrow> (p, [])
      | Malformed \<Rightarrow>
          (\<lparr>current_page = Some 1, processed_urls = Some {}\<rparr>,
           [LogError (''Error reading progress file for '' @ brand_name)]))"

definition save_progress :: "string \<Rightarrow> progress \<Rightarrow> progress_files \<Rightarrow> progress_files" where
  "save_progress brand_name p files = files (progress_file brand_name := Parsed p)"


section \<open>Dataset store\<close>

text \<open>
  A watch is the dictionary \<open>process_watch_detail\<close> builds. \<open>save_watches_to_json\<close> reads
  its key with \<open>w.get('url')\<close>, which is \<open>None\<close> for a record without that key. The
  specifications are a Python dictionary: the pairs in the order of first insertion,
  \<open>specs[key] = value\<close> being \<^const>\<open>AList.update\<close>.
\<close>

record watch =
  w_url :: "string option"
  w_name :: string
  w_price :: string
  w_description :: string
  w_specifications :: "(string \<times> string) list"

text \<open>The file of the dataset, and how many times it has been written.\<close>

record dataset_store =
  watches_file :: "watch list json_file"
  file_writes :: nat

definition save_watches_to_json ::
    "watch list \<Rightarrow> dataset_store \<Rightarrow> dataset_store \<times> log_entry list" where
  "save_watches_to_json watches st =
     (let (existing_watches, log1) =
            (case watches_file st of
               Absent \<Rightarrow> ([], [])
             | Parsed ws \<Rightarrow> (ws, [])
             | Malformed \<Rightarrow>
                 ([], [LogError ''Error reading existing watches file. Starting fresh.'']));
          all_watches = existing_watches;
          existing_urls = set (map w_url existing_watches);
          new_watches = filter (\<lambda>w. w_url w \<notin> existing_urls) watches
      in if new_watches = []
         then (st, log1 @ [LogInfo ''No new watches to save, skipping file write''])
         else (let all_watches = all_watches @ new_watches in
               (st\<lparr>watches_file := Parsed all_watches, file_writes := Suc (file_writes st)\<rparr>,
                log1 @ [LogInfo (''Watch data ('' @ str_nat (length all_watches)
                                  @ '' total watches) saved to '' @ WATCHES_JSON)])))"

text \<open>The records a store holds, as \<open>save_watches_to_json\<close> reads them.\<close>

definition stored :: "dataset_store \<Rightarrow> watch list" where
  "stored st = (case watches_file st of Parsed ws \<Rightarrow> ws | _ \<Rightarrow> [])"


section \<open>URLs: the standard library's \<open>urllib.parse\<close>\<close>

text \<open>
  \<open>get_pagination_url\<close> calls \<open>urlparse\<close> and \<open>make_absolute_url\<close> calls \<open>urljoin\<close>. Both
  belong to Python's standard library; they are transcribed here from CPython 3.11
  (\<open>Lib/urllib/parse.py\<close>), for text arguments and \<open>allow_fragments=True\<close>. A call raises
  \<open>ValueError\<close> on a network location with an unbalanced bracket or with an IP literal the
  library rejects; the library's check of the literal (module \<open>ipaddress\<close>) is the
  parameter \<open>ip_ok\<close> of every function below. The check of non-ASCII network locations
  does nothing on ASCII text.
\<close>

datatype py_exception =
  ValueError string | TimeoutError string | PlaywrightError string | TypeError string

definition uses_relative :: "string list" where
  "uses_relative = ['''', ''ftp'', ''http'', ''gopher'', ''nntp'', ''imap'',
                    ''wais'', ''file'', ''https'', ''shttp'', ''mms'',
                    ''prospero'', ''rtsp'', ''rtsps'', ''rtspu'', ''sftp'',
                    ''svn'', ''svn+ssh'', ''ws'', ''wss'']"

definition uses_netloc :: "string list" where
  "uses_netloc = ['''', ''ftp'', ''http'', ''gopher'', ''nntp'', ''telnet'',
                  ''imap'', ''wais'', ''file'', ''mms'', ''https'', ''shttp'',
                  ''snews'', ''prospero'', ''rtsp'', ''rtsps'', ''rtspu'', ''rsync'',
                  ''svn'', ''svn+ssh'', ''sftp'', ''nfs'', ''git'', ''git+ssh'',
                  ''ws'', ''wss'']"

definition uses_params :: "string list" where
  "uses_params = ['''', ''ftp'', ''hdl'', ''prospero'', ''http'', ''imap'',
                  ''https'', ''shttp'', ''rtsp'', ''rtsps'', ''rtspu'', ''sip'',
                  ''sips'', ''mms'', ''sftp'', ''tel'']"

definition scheme_chars :: string where
  "scheme_chars = ascii_lowercase @ ascii_uppercase @ digits @ ''+-.''"

definition ascii_alpha :: "char \<Rightarrow> bool" where
  "ascii_alpha c \<longleftrightarrow> c \<in> set (ascii_lowercase @ ascii_uppercase)"

text \<open>The characters 0x00 to 0x20, stripped from the left of a URL.\<close>

definition c0_control_or_space :: "char \<Rightarrow> bool" where
  "c0_control_or_space c \<longleftrightarrow> (of_char c :: nat) \<le> 32"

text \<open>Tab, carriage return and line feed, removed from a URL wherever they stand.\<close>

definition unsafe_url_byte :: "char \<Rightarrow> bool" where
  "unsafe_url_byte c \<longleftrightarrow> (of_char c :: nat) \<in> {9, 13, 10}"

text \<open>\<open>s.split(c, 1)\<close> for a string that holds \<open>c\<close>, and \<open>s.partition(c)\<close> without the separator.\<close>

definition before_first :: "char \<Rightarrow> string \<Rightarrow> string" where
  "before_first c s = takeWhile (\<lambda>x. x \<noteq> c) s"

definition after_first :: "char \<Rightarrow> string \<Rightarrow> string" where
  "after_first c s = drop 1 (dropWhile (\<lambda>x. x \<noteq> c) s)"

record split_result =
  sr_scheme :: string
  sr_netloc :: string
  sr_url :: string
  sr_query :: string
  sr_fragment :: string

definition netloc_delim :: "char \<Rightarrow> bool" where
  "netloc_delim c \<longleftrightarrow> c \<in> set ''/?#''"

definition splitnetloc :: "string \<Rightarrow> nat \<Rightarrow> string \<times> string" where
  "splitnetloc u start =
     (takeWhile (\<lambda>c. \<not> netloc_delim c) (drop start u),
      dropWhile (\<lambda>c. \<not> netloc_delim c) (drop start u))"

text \<open>The steps of \<open>urlsplit\<close>, in its order.\<close>

definition clean_url :: "string \<Rightarrow> string" where
  "clean_url url0 = filter (\<lambda>c. \<not> unsafe_url_byte c) (dropWhile c0_control_or_space url0)"

definition clean_scheme :: "string \<Rightarrow> string" where
  "clean_scheme scheme0 =
     filter (\<lambda>c. \<not> unsafe_url_byte c)
       (rev (dropWhile c0_control_or_space (rev (dropWhile c0_control_or_space scheme0))))"

definition has_scheme :: "string \<Rightarrow> bool" where
  "has_scheme u \<longleftrightarrow>
     CHR '':'' \<in> set u \<and> before_first CHR '':'' u \<noteq> [] \<and> ascii_alpha (hd u)
     \<and> list_all (\<lambda>c. c \<in> set scheme_chars) (before_first CHR '':'' u)"

text \<open>A scheme as \<open>urlsplit\<close> returns it when it finds one.\<close>

definition scheme_ok :: "string \<Rightarrow> bool" where
  "scheme_ok s \<longleftrightarrow> s \<noteq> [] \<and> ascii_alpha (hd s) \<and> list_all (\<lambda>c. c \<in> set scheme_chars) s \<and> lower s = s"

definition split_scheme :: "string \<Rightarrow> string \<Rightarrow> string \<times> string" where
  "split_scheme u scheme1 =
     (if has_scheme u then (lower (before_first CHR '':'' u), after_first CHR '':'' u)
      else (scheme1, u))"

definition split_netloc :: "string \<Rightarrow> string \<times> string" where
  "split_netloc u = (if take 2 u = ''//'' then splitnetloc u 2 else ([], u))"

definition split_at :: "char \<Rightarrow> string \<Rightarrow> string \<times> string" where
  "split_at c u = (if c \<in> set u then (before_first c u, after_first c u) else (u, []))"

definition bad_brackets :: "string \<Rightarrow> bool" where
  "bad_brackets netloc1 \<longleftrightarrow>
     (CHR ''['' \<in> set netloc1 \<and> CHR '']'' \<notin> set netloc1)
     \<or> (CHR '']'' \<in> set netloc1 \<and> CHR ''['' \<notin> set netloc1)"

definition bad_ip_literal :: "(string \<Rightarrow> bool) \<Rightarrow> string \<Rightarrow> bool" where
  "bad_ip_literal ip_ok netloc1 \<longleftrightarrow>
     CHR ''['' \<in> set netloc1 \<and> CHR '']'' \<in> set netloc1
     \<and> \<not> ip_ok (before_first CHR '']'' (after_first CHR ''['' netloc1))"

definition urlsplit :: "(string \<Rightarrow> bool) \<Rightarrow> string \<Rightarrow> string \<Rightarrow> py_exception + split_result" where
  "urlsplit ip_ok url0 scheme0 =
     (let u = clean_url url0;
          scheme1 = clean_scheme scheme0;
          (scheme2, u) = split_scheme u scheme1;
          (netloc1, u) = split_netloc u
      in if bad_brackets netloc1 then Inl (ValueError ''Invalid IPv6 URL'')
         else if bad_ip_literal ip_ok netloc1 then Inl (ValueError ''invalid bracketed host'')
         else
           (let (u, fragment1) = split_at CHR ''#'' u;
                (u, query1) = split_at CHR ''?'' u
            in Inr \<lparr>sr_scheme = scheme2, sr_netloc = netloc1, sr_url = u,
                     sr_query = query1, sr_fragment = fragment1\<rparr>))"

text \<open>The last segment of a path: what follows its last slash.\<close>

definition last_segment :: "string \<Rightarrow> string" where
  "last_segment u = rev (takeWhile (\<lambda>c. c \<noteq> CHR ''/'') (rev u))"

definition splitparams :: "string \<Rightarrow> string \<times> string" where
  "splitparams u =
     (if CHR ''/'' \<in> set u
      then (if CHR '';'' \<notin> set (last_segment u) then (u, [])
            else (take (length u - length (last_segment u)) u @ before_first CHR '';'' (last_segment u),
                  after_first CHR '';'' (last_segment u)))
      else (before_first CHR '';'' u, after_first CHR '';'' u))"

record parse_result =
  scheme :: string
  netloc :: string
  path :: string
  params :: string
  query :: string
  fragment :: string

definition urlparse :: "(string \<Rightarrow> bool) \<Rightarrow> string \<Rightarrow> string \<Rightarrow> py_exception + parse_result" where
  "urlparse ip_ok url0 scheme0 =
     (case urlsplit ip_ok url0 scheme0 of
        Inl e \<Rightarrow> Inl e
      | Inr splitresult \<Rightarrow>
          (let (u, params1) =
                 (if sr_scheme splitresult \<in> set uses_params \<and> CHR '';'' \<in> set (sr_url splitresult)
                  then splitparams (sr_url splitresult)
                  else (sr_url splitresult, []))
           in Inr \<lparr>scheme = sr_scheme splitresult, netloc = sr_netloc splitresult, path = u,
                    params = params1, query = sr_query splitresult,
                    fragment = sr_fragment splitresult\<rparr>))"

text \<open>What \<open>urlparse\<close> guarantees of the components it returns.\<close>

definition parsed_ok :: "(string \<Rightarrow> bool) \<Rightarrow> parse_result \<Rightarrow> bool" where
  "parsed_ok ip_ok p \<longleftrightarrow>
     (\<forall>c \<in> set (scheme p) \<union> set (netloc p) \<union> set (path p) \<union> set (query p). \<not> unsafe_url_byte c)
     \<and> (scheme p = [] \<or> scheme_ok (scheme p))
     \<and> (\<forall>c\<in>set (netloc p). \<not> netloc_delim c)
     \<and> \<not> bad_brackets (netloc p) \<and> \<not> bad_ip_literal ip_ok (netloc p)
     \<and> CHR ''?'' \<notin> set (path p) \<and> CHR ''#'' \<notin> set (path p)
     \<and> CHR ''#'' \<notin> set (query p)
     \<and> (netloc p \<noteq> [] \<longrightarrow> path p = [] \<or> hd (path p) = CHR ''/'')
     \<and> (scheme p \<in> set uses_params \<longrightarrow> CHR '';'' \<notin> set (last_segment (path p)))"

definition urlunsplit :: "string \<Rightarrow> string \<Rightarrow> string \<Rightarrow> string \<Rightarrow> string \<Rightarrow> string" where
  "urlunsplit scheme1 netloc1 u0 query1 fragment1 =
     (let u = (if netloc1 \<noteq> [] \<or> (scheme1 \<noteq> [] \<and> scheme1 \<in> set uses_netloc) \<or> take 2 u0 = ''//''
               then ''//'' @ netloc1 @ (if u0 \<noteq> [] \<and> take 1 u0 \<noteq> ''/'' then ''/'' @ u0 else u0)
               else u0);
          u = (if scheme1 \<noteq> [] then scheme1 @ '':'' @ u else u);
          u = (if query1 \<noteq> [] then u @ ''?'' @ query1 else u);
          u = (if fragment1 \<noteq> [] then u @ ''#'' @ fragment1 else u)
      in u)"

definition urlunparse :: "parse_result \<Rightarrow> string" where
  "urlunparse c =
     (let u = (if params c \<noteq> [] then path c @ '';'' @ params c else path c)
      in urlunsplit (scheme c) (netloc c) u (query c) (fragment c))"

text \<open>\<open>s.split('/')\<close> and \<open>'/'.join(parts)\<close>.\<close>

fun split_slash :: "string \<Rightarrow> string list" where
  "split_slash [] = [[]]"
| "split_slash (c # cs) =
     (if c = CHR ''/'' then [] # split_slash cs
      else (case split_slash cs of [] \<Rightarrow> [[c]] | seg # segs \<Rightarrow> (c # seg) # segs))"

fun join_slash :: "string list \<Rightarrow> string" where
  "join_slash [] = []"
| "join_slash [seg] = seg"
| "join_slash (seg # segs) = seg @ ''/'' @ join_slash segs"

text \<open>The loop of \<open>urljoin\<close> over the segments: \<open>..\<close> pops, \<open>.\<close> is skipped.\<close>

fun resolve_segments :: "string list \<Rightarrow> string list \<Rightarrow> string list" where
  "resolve_segments [] resolved_path = resolved_path"
| "resolve_segments (seg # segs) resolved_path =
     (if seg = ''..'' then resolve_segments segs (butlast resolved_path)
      else if seg = ''.'' then resolve_segments segs resolved_path
      else resolve_segments segs (resolved_path @ [seg]))"

definition urljoin :: "(string \<Rightarrow> bool) \<Rightarrow> string \<Rightarrow> string \<Rightarrow> py_exception + string" where
  "urljoin ip_ok base u =
     (if base = [] then Inr u
      else if u = [] then Inr base
      else
        (case urlparse ip_ok base [] of
           Inl e \<Rightarrow> Inl e
         | Inr b \<Rightarrow>
        (case urlparse ip_ok u (scheme b) of
           Inl e \<Rightarrow> Inl e
         | Inr p \<Rightarrow>
             if scheme p \<noteq> scheme b \<or> scheme p \<notin> set uses_relative then Inr u
             else if scheme p \<in> set uses_netloc \<and> netloc p \<noteq> [] then Inr (urlunparse p)
             else
               (let netloc1 = (if scheme p \<in> set uses_netloc then netloc b else netloc p) in
                if path p = [] \<and> params p = []
                then Inr (urlunparse \<lparr>scheme = scheme p, netloc = netloc1, path = path b,
                            params = params b,
                            query = (if query p = [] then query b else query p),
                            fragment = fragment p\<rparr>)
                else
                  (let base_parts = split_slash (path b);
                       base_parts = (if last base_parts \<noteq> [] then butlast base_parts else base_parts);
                       segments =
                         (if take 1 (path p) = ''/'' then split_slash (path p)
                          else (let segments = base_parts @ split_slash (path p) in
                                if length segments \<le> 1 then segments
                                else hd segments # filter (\<lambda>s. s \<noteq> []) (butlast (tl segments))
                                       @ [last segments]));
                       resolved_path = resolve_segments segments [];
                       resolved_path =
                         (if last segments \<in> {''.'', ''..''} then resolved_path @ [[]]
                          else resolved_path);
                       joined = join_slash resolved_path
                   in Inr (urlunparse \<lparr>scheme = scheme p, netloc = netloc1,
                             path = (if joined = [] then ''/'' else joined),
                             params = params p, query = query p, fragment = fragment p\<rparr>))))))"


section \<open>Pagination driver and URL absolutization\<close>

definition get_pagination_url :: "(string \<Rightarrow> bool) \<Rightarrow> string \<Rightarrow> int \<Rightarrow> py_exception + string" where
  "get_pagination_url ip_ok base_url page_num =
     (case urlparse ip_ok base_url [] of
        Inl e \<Rightarrow> Inl e
      | Inr parsed_url \<Rightarrow>
          if page_num = 1 then Inr base_url
          else
            (let path = path parsed_url;
                 new_path =
                   (if suffix ''index.htm'' path
                    then (let base_path = take (length path - 9) path
                          in base_path @ ''index-'' @ str_int page_num @ ''.htm'')
                    else if suffix ''/'' path
                    then path @ ''index-'' @ str_int page_num @ ''.htm''
                    else path @ ''/index-'' @ str_int page_num @ ''.htm'');
                 pagination_url = scheme parsed_url @ ''://'' @ netloc parsed_url @ new_path
             in Inr (if query parsed_url \<noteq> []
                     then pagination_url @ ''?'' @ query parsed_url
                     else pagination_url)))"

text \<open>The characters of a page marker \<open>index-N.htm\<close>.\<close>

definition marker_char :: "char \<Rightarrow> bool" where
  "marker_char c \<longleftrightarrow> c \<noteq> CHR ''/'' \<and> c \<noteq> CHR '';'' \<and> c \<noteq> CHR ''?'' \<and> c \<noteq> CHR ''#''
      \<and> \<not> unsafe_url_byte c"

definition make_absolute_url :: "(string \<Rightarrow> bool) \<Rightarrow> string \<Rightarrow> py_exception + string" where
  "make_absolute_url ip_ok u =
     (if \<not> (prefix ''http://'' u \<or> prefix ''https://'' u)
      then urljoin ip_ok BASE_URL (dropWhile (\<lambda>c. c = CHR ''/'') u)
      else Inr u)"


section \<open>The browser\<close>

text \<open>
  The Playwright page is outside the repository. What the scraper sees of it is modelled
  by a \<open>page_view\<close>: the answers the page gives, after one \<open>page.goto\<close>, to the queries the
  scraper makes. A browser is any function from its own state \<open>'w\<close> and a URL to the view
  of the page and a new state, so a site may answer differently at each visit.
\<close>

datatype goto_result = GotoRaises py_exception | NoResponse | Response int

datatype wait_result = WaitRaises py_exception | WaitTimeout | WaitOk

text \<open>A row of a table: the text of the cell each of the four selectors finds, if any.\<close>

record table_row =
  th_cell :: "string option"
  td_first_child :: "string option"
  td_last_child :: "string option"
  td_nth_child_2 :: "string option"

text \<open>\<open>table.query_selector_all("tbody > tr")\<close>: the rows, or an exception.\<close>

type_synonym html_table = "py_exception + table_row list"

record page_view =
  pv_goto :: goto_result
  pv_load_state :: "py_exception option"
  pv_container :: wait_result
  pv_all_links :: "py_exception + (py_exception + string option) list"
  pv_nth_links :: "(py_exception + string option) list"
  pv_text :: "string \<Rightarrow> py_exception + string option"
  pv_tables :: "string \<Rightarrow> py_exception + html_table list"
  pv_content :: "py_exception + string"

text \<open>
  \<open>pv_goto\<close> is what \<open>page.goto\<close> returns or raises; \<open>pv_load_state\<close> the exception of
  \<open>wait_for_load_state\<close>, if any; \<open>pv_container\<close> the outcome of waiting for the listing
  container; \<open>pv_all_links\<close> the \<open>href\<close> of every link \<open>#wt-watches a\<close> (reading one may
  raise); \<open>pv_nth_links\<close> the same for the links at child positions 1, 2, ... of the
  container, no link standing after the last; \<open>pv_text sel\<close> the text of the first element
  \<open>sel\<close> matches; \<open>pv_tables sel\<close> the tables \<open>sel\<close> matches; \<open>pv_content\<close> the markup.
\<close>

type_synonym 'w browser = "'w \<Rightarrow> string \<Rightarrow> page_view \<times> 'w"

datatype request = ListingRequest int string | DetailRequest string

text \<open>
  The state of a run: the browser's state, the page it shows, the requests made so far
  (each with the call that made it), the two stores and the log. In \<open>process_brand\<close> and
  the functions it calls only warnings and errors are logged here; the pauses
  (\<open>time.sleep\<close>) change nothing of this state and are left out.
\<close>

record 'w run_state =
  world :: 'w
  page :: page_view
  requests :: "request list"
  dataset :: dataset_store
  progress_store :: progress_files
  logged :: "log_entry list"

definition goto :: "'w browser \<Rightarrow> request \<Rightarrow> string \<Rightarrow> 'w run_state \<Rightarrow> 'w run_state" where
  "goto browser req u st =
     (let (pv, w) = browser (world st) u
      in st\<lparr>world := w, page := pv, requests := requests st @ [req]\<rparr>)"

definition exn_text :: "py_exception \<Rightarrow> string" where
  "exn_text e = (case e of ValueError m \<Rightarrow> m | TimeoutError m \<Rightarrow> m | PlaywrightError m \<Rightarrow> m
                 | TypeError m \<Rightarrow> m)"

definition add_log :: "log_entry list \<Rightarrow> 'w run_state \<Rightarrow> 'w run_state" where
  "add_log entries st = st\<lparr>logged := logged st @ entries\<rparr>"


section \<open>Detail extractor\<close>

definition DETAIL_NAME :: string where
  "DETAIL_NAME = ''#detail-page-dealer section.data h1 span''"

definition DETAIL_PRICE :: string where
  "DETAIL_PRICE = ''.detail-page-price span''"

definition DETAIL_DESC :: "string list" where
  "DETAIL_DESC = [''#detail-page-dealer section.data .description-text'',
                  ''#detail-page-dealer section.data .article-description'',
                  ''.dealer-listing__description'',
                  ''.detail-page__description'']"

definition SPEC_TABLES :: "string list" where
  "SPEC_TABLES = [''#detail-page-dealer section.data table'',
                  ''#detail-page-dealer section.data div table'',
                  ''table.technical-details'',
                  ''table'']"

text \<open>
  \<open>re.sub(r'.*function docReady[\s\S]*', '', value)\<close>: the dot matches every character
  but the line feed, so a match starts at the beginning of the first line that holds
  \<open>function docReady\<close> and runs to the end of the string; what stands before that line
  is kept.
\<close>

fun split_on :: "char \<Rightarrow> string \<Rightarrow> string list" where
  "split_on sep [] = [[]]"
| "split_on sep (c # cs) =
     (if c = sep then [] # split_on sep cs
      else (case split_on sep cs of [] \<Rightarrow> [[c]] | seg # segs \<Rightarrow> (c # seg) # segs))"

definition re_sub_doc_ready :: "string \<Rightarrow> string" where
  "re_sub_doc_ready v =
     (let lines = split_on (CHR 0x0A) v;
          kept = takeWhile (\<lambda>l. \<not> sublist ''function docReady'' l) lines
      in if length kept = length lines then v
         else concat (map (\<lambda>l. l @ [CHR 0x0A]) kept))"

definition key_element :: "table_row \<Rightarrow> string option" where
  "key_element row = (case th_cell row of Some t \<Rightarrow> Some t | None \<Rightarrow> td_first_child row)"

definition value_element :: "table_row \<Rightarrow> string option" where
  "value_element row =
     (case td_last_child row of Some t \<Rightarrow> Some t | None \<Rightarrow> td_nth_child_2 row)"

text \<open>
  One row of the loop of \<open>extract_specs\<close>: the pair it stores with \<open>specs[key] = value\<close>, or
  \<open>None\<close> when the row is passed over (a cell is missing, a \<open>continue\<close>, an empty key).
\<close>

definition spec_entry :: "table_row \<Rightarrow> (string \<times> string) option" where
  "spec_entry row =
     (case (key_element row, value_element row) of
        (Some key_text, Some value_text) \<Rightarrow>
          (let key = strip key_text;
               v = strip value_text;
               v = strip (re_sub_doc_ready v);
               key_lower = lower key
           in if key_lower = ''basic info'' then None
              else if key_lower = ''description'' \<and> lower (strip v) = ''description'' then None
              else if key \<noteq> [] then Some (key, v)
              else None)
      | _ \<Rightarrow> None)"

definition spec_row :: "table_row \<Rightarrow> (string \<times> string) list \<Rightarrow> (string \<times> string) list" where
  "spec_row row specs =
     (case spec_entry row of None \<Rightarrow> specs | Some (key, v) \<Rightarrow> AList.update key v specs)"

text \<open>The tables of one selector; an exception leaves the loop with the pairs stored so far.\<close>

fun spec_tables ::
    "html_table list \<Rightarrow> (string \<times> string) list \<Rightarrow> (string \<times> string) list \<times> py_exception option" where
  "spec_tables [] specs = (specs, None)"
| "spec_tables (t # ts) specs =
     (case t of
        Inl e \<Rightarrow> (specs, Some e)
      | Inr rows \<Rightarrow> spec_tables ts (fold spec_row rows specs))"

fun extract_specs_from ::
    "string list \<Rightarrow> page_view \<Rightarrow> (string \<times> string) list
       \<Rightarrow> (string \<times> string) list \<times> log_entry list" where
  "extract_specs_from [] pv specs = (specs, [])"
| "extract_specs_from (selector # selectors) pv specs =
     (case pv_tables pv selector of
        Inl e \<Rightarrow>
          (let (specs1, lg) = extract_specs_from selectors pv specs
           in (specs1, LogWarning (''Error extracting specs with selector '' @ selector @ '': ''
                                    @ exn_text e) # lg))
      | Inr tables \<Rightarrow>
          (case spec_tables tables specs of
             (specs1, Some e) \<Rightarrow>
               (let (specs2, lg) = extract_specs_from selectors pv specs1
                in (specs2, LogWarning (''Error extracting specs with selector '' @ selector
                                         @ '': '' @ exn_text e) # lg))
           | (specs1, None) \<Rightarrow>
               if specs1 \<noteq> [] then (specs1, [])
               else extract_specs_from selectors pv specs1))"

definition extract_specs :: "page_view \<Rightarrow> (string \<times> string) list \<times> log_entry list" where
  "extract_specs pv = extract_specs_from SPEC_TABLES pv []"

fun extract_description_from :: "string list \<Rightarrow> page_view \<Rightarrow> string \<times> log_entry list" where
  "extract_description_from [] pv = ([], [])"
| "extract_description_from (selector # selectors) pv =
     (case pv_text pv selector of
        Inl e \<Rightarrow>
          (let (d, lg) = extract_description_from selectors pv
           in (d, LogWarning (''Error extracting description with selector '' @ selector
                               @ '': '' @ exn_text e) # lg))
      | Inr None \<Rightarrow> extract_description_from selectors pv
      | Inr (Some t) \<Rightarrow>
          (let description = strip t
           in if description \<noteq> [] then (description, [])
              else extract_description_from selectors pv))"

definition extract_description :: "page_view \<Rightarrow> string \<times> log_entry list" where
  "extract_description pv = extract_description_from DETAIL_DESC pv"

text \<open>
  The body of \<open>process_watch_detail\<close> once the page is loaded. \<open>Inl\<close> is an exception of a
  query, which the function's \<open>except\<close> turns into \<open>None\<close>. The snapshot of the markup that
  the empty-name branch writes to the error directory is left out.
\<close>

definition extract_watch ::
    "page_view \<Rightarrow> string \<Rightarrow> py_exception + (watch option \<times> log_entry list)" where
  "extract_watch pv watch_url =
     (case pv_text pv DETAIL_NAME of
        Inl e \<Rightarrow> Inl e
      | Inr found \<Rightarrow>
     (case (case found of Some t \<Rightarrow> Inr (Some t) | None \<Rightarrow> pv_text pv ''h1'') of
        Inl e \<Rightarrow> Inl e
      | Inr name_element \<Rightarrow>
          (let watch_name = (case name_element of Some t \<Rightarrow> strip t | None \<Rightarrow> [])
           in if watch_name = []
              then (case pv_content pv of
                      Inl e \<Rightarrow> Inl e
                    | Inr markup \<Rightarrow>
                        Inr (None, [LogWarning (''Empty watch name at '' @ watch_url)]))
              else
                (case pv_text pv DETAIL_PRICE of
                   Inl e \<Rightarrow> Inl e
                 | Inr price_element \<Rightarrow>
                     (let price = (case price_element of Some t \<Rightarrow> strip t | None \<Rightarrow> []);
                          (description, lg1) = extract_description pv;
                          (specs, lg2) = extract_specs pv;
                          (description, specs) =
                            (if description = [] \<and> map_of specs ''Description'' \<noteq> None
                             then (the (map_of specs ''Description''),
                                   AList.delete ''Description'' specs)
                             else (description, specs))
                      in Inr (Some \<lparr>w_url = Some watch_url, w_name = watch_name,
                                     w_price = price, w_description = description,
                                     w_specifications = specs\<rparr>,
                              lg1 @ lg2))))))"

definition process_watch_detail ::
    "(string \<Rightarrow> bool) \<Rightarrow> 'w browser \<Rightarrow> string \<Rightarrow> string \<Rightarrow> 'w run_state
       \<Rightarrow> watch option \<times> 'w run_state" where
  "process_watch_detail ip_ok browser watch_url brand_name st =
     (case make_absolute_url ip_ok watch_url of
        Inl e \<Rightarrow>
          (None, add_log [LogError (''Error processing watch detail page '' @ watch_url @ '': ''
                                     @ exn_text e)] st)
      | Inr watch_url \<Rightarrow>
          (let st = goto browser (DetailRequest watch_url) watch_url st;
               outcome =
                 (case pv_goto (page st) of
                    GotoRaises e \<Rightarrow> Inl e
                  | _ \<Rightarrow>
                      (case pv_load_state (page st) of
                         Some e \<Rightarrow> Inl e
                       | None \<Rightarrow> extract_watch (page st) watch_url))
           in case outcome of
                Inl e \<Rightarrow>
                  (None, add_log [LogError (''Error processing watch detail page '' @ watch_url
                                             @ '': '' @ exn_text e)] st)
              | Inr (watch_data, lg) \<Rightarrow> (watch_data, add_log lg st)))"


section \<open>Listing walker\<close>

text \<open>Strategy A: the loop over all links; an exception leaves it with the URLs found so far.\<close>

fun collect_all_links ::
    "(string \<Rightarrow> bool) \<Rightarrow> (py_exception + string option) list \<Rightarrow> string list
       \<Rightarrow> py_exception option \<times> string list" where
  "collect_all_links ip_ok [] watch_urls = (None, watch_urls)"
| "collect_all_links ip_ok (link # links) watch_urls =
     (case link of
        Inl e \<Rightarrow> (Some e, watch_urls)
      | Inr None \<Rightarrow> collect_all_links ip_ok links watch_urls
      | Inr (Some href) \<Rightarrow>
          if href = [] then collect_all_links ip_ok links watch_urls
          else (case make_absolute_url ip_ok href of
                  Inl e \<Rightarrow> (Some e, watch_urls)
                | Inr absolute_url \<Rightarrow>
                    collect_all_links ip_ok links (watch_urls @ [absolute_url])))"

text \<open>
  Strategy B: child positions 1, 2, ... until one holds no link or an exception breaks
  the loop.
\<close>

fun collect_nth_links ::
    "(string \<Rightarrow> bool) \<Rightarrow> (py_exception + string option) list \<Rightarrow> string list
       \<Rightarrow> string list \<times> log_entry list" where
  "collect_nth_links ip_ok [] watch_urls = (watch_urls, [])"
| "collect_nth_links ip_ok (link # links) watch_urls =
     (case link of
        Inl e \<Rightarrow> (watch_urls, [LogError (''Error extracting watch URL: '' @ exn_text e)])
      | Inr None \<Rightarrow> collect_nth_links ip_ok links watch_urls
      | Inr (Some href) \<Rightarrow>
          if href = [] then collect_nth_links ip_ok links watch_urls
          else (case make_absolute_url ip_ok href of
                  Inl e \<Rightarrow>
                    (watch_urls, [LogError (''Error extracting watch URL: '' @ exn_text e)])
                | Inr absolute_url \<Rightarrow>
                    collect_nth_links ip_ok links (watch_urls @ [absolute_url])))"

definition listing_fallback ::
    "(string \<Rightarrow> bool) \<Rightarrow> page_view \<Rightarrow> string list
       \<Rightarrow> (py_exception + string list) \<times> log_entry list" where
  "listing_fallback ip_ok pv watch_urls =
     (let (watch_urls, lg) = collect_nth_links ip_ok (pv_nth_links pv) watch_urls
      in if watch_urls = []
         then (case pv_content pv of
                 Inl e \<Rightarrow> (Inl e, lg @ [LogError ''No links found. Page content:''])
               | Inr markup \<Rightarrow>
                   (Inr watch_urls, lg @ [LogError ''No links found. Page content:'', LogError markup]))
         else (Inr watch_urls, lg))"

definition process_listing_page ::
    "(string \<Rightarrow> bool) \<Rightarrow> page_view \<Rightarrow> (py_exception + string list) \<times> log_entry list" where
  "process_listing_page ip_ok pv =
     (case pv_all_links pv of
        Inl e \<Rightarrow>
          (let (r, lg) = listing_fallback ip_ok pv []
           in (r, LogWarning (''Error finding all links at once: '' @ exn_text e) # lg))
      | Inr all_links \<Rightarrow>
          if all_links \<noteq> []
          then (case collect_all_links ip_ok all_links [] of
                  (None, watch_urls) \<Rightarrow> (Inr watch_urls, [])
                | (Some e, watch_urls) \<Rightarrow>
                    (let (r, lg) = listing_fallback ip_ok pv watch_urls
                     in (r, LogWarning (''Error finding all links at once: '' @ exn_text e) # lg)))
          else listing_fallback ip_ok pv [])"


section \<open>Brand orchestrator\<close>

record brand =
  b_name :: string
  b_url :: string

text \<open>The body of \<open>process_brand_page\<close>: one attempt to load a listing page.\<close>

definition process_brand_page ::
    "(string \<Rightarrow> bool) \<Rightarrow> 'w browser \<Rightarrow> brand \<Rightarrow> int \<Rightarrow> 'w run_state
       \<Rightarrow> (py_exception + bool) \<times> 'w run_state" where
  "process_brand_page ip_ok browser brand page_num st =
     (case get_pagination_url ip_ok (b_url brand) page_num of
        Inl e \<Rightarrow> (Inl e, st)
      | Inr current_url \<Rightarrow>
          (let st = goto browser (ListingRequest page_num current_url) current_url st
           in case pv_goto (page st) of
                GotoRaises e \<Rightarrow> (Inl e, st)
              | NoResponse \<Rightarrow>
                  (Inr False, add_log [LogError (''Failed to load page '' @ str_int page_num),
                                       LogError ''Response status: No response''] st)
              | Response status \<Rightarrow>
                  if status \<noteq> 200
                  then (Inr False, add_log [LogError (''Failed to load page '' @ str_int page_num),
                                            LogError (''Response status: '' @ str_int status)] st)
                  else (case pv_container (page st) of
                          WaitRaises e \<Rightarrow> (Inl e, st)
                        | WaitTimeout \<Rightarrow>
                            (Inr False,
                             add_log [LogError (''Watch container not found on page ''
                                                 @ str_int page_num)] st)
                        | WaitOk \<Rightarrow> (Inr True, st))))"

text \<open>
  The decorator \<open>with_retry\<close>: the loop \<open>while retries < max_retries\<close>, its first argument
  counting the iterations left. A returned value ends it at once; only exceptions are
  tried again.
\<close>

fun retry_loop ::
    "nat \<Rightarrow> nat \<Rightarrow> nat \<Rightarrow> py_exception option
       \<Rightarrow> ('w run_state \<Rightarrow> (py_exception + 'a) \<times> 'w run_state)
       \<Rightarrow> 'w run_state \<Rightarrow> (py_exception + 'a) \<times> 'w run_state" where
  "retry_loop 0 max_retries retries last_exception func st =
     (case last_exception of
        None \<Rightarrow> (Inl (TypeError ''exceptions must derive from BaseException''), st)
      | Some e \<Rightarrow> (Inl e, st))"
| "retry_loop (Suc k) max_retries retries last_exception func st =
     (case func st of
        (Inr r, st1) \<Rightarrow> (Inr r, st1)
      | (Inl e, st1) \<Rightarrow>
          retry_loop k max_retries (Suc retries) (Some e) func
            (add_log [LogWarning (''Attempt '' @ str_nat (Suc retries) @ ''/'' @ str_nat max_retries
                                   @ '' failed: '' @ exn_text e @ ''. Retrying in ''
                                   @ str_nat (2 ^ Suc retries) @ ''s'')] st1))"

definition with_retry ::
    "nat \<Rightarrow> ('w run_state \<Rightarrow> (py_exception + 'a) \<times> 'w run_state)
       \<Rightarrow> 'w run_state \<Rightarrow> (py_exception + 'a) \<times> 'w run_state" where
  "with_retry max_retries func st = retry_loop max_retries max_retries 0 None func st"

text \<open>The loop over the new URLs of one listing page.\<close>

fun process_watches ::
    "(string \<Rightarrow> bool) \<Rightarrow> 'w browser \<Rightarrow> brand \<Rightarrow> int \<Rightarrow> string list
       \<Rightarrow> watch list \<times> string set \<times> 'w run_state
       \<Rightarrow> watch list \<times> string set \<times> 'w run_state" where
  "process_watches ip_ok browser brand page_num [] acc = acc"
| "process_watches ip_ok browser brand page_num (u # new_urls) (brand_watches, processed, st) =
     (case process_watch_detail ip_ok browser u (b_name brand) st of
        (None, st1) \<Rightarrow>
          process_watches ip_ok browser brand page_num new_urls (brand_watches, processed, st1)
      | (Some watch_data, st1) \<Rightarrow>
          (let brand_watches = brand_watches @ [watch_data];
               (ds, lg) = save_watches_to_json [watch_data] (dataset st1);
               processed = insert u processed;
               st2 = st1\<lparr>dataset := ds,
                         progress_store :=
                           save_progress (b_name brand)
                             \<lparr>current_page = Some page_num, processed_urls = Some processed\<rparr>
                             (progress_store st1),
                         logged := logged st1 @ lg\<rparr>
           in process_watches ip_ok browser brand page_num new_urls
                (brand_watches, processed, st2)))"

text \<open>
  The loop \<open>for page_num in range(start_page, 100)\<close> over the page numbers left. The first
  component of the result is the page number and the exception when the loop was left
  by an exception, which the \<open>except\<close> of \<open>process_brand\<close> handles.
\<close>

fun process_pages ::
    "(string \<Rightarrow> bool) \<Rightarrow> 'w browser \<Rightarrow> brand \<Rightarrow> int list
       \<Rightarrow> watch list \<times> string set \<times> 'w run_state
       \<Rightarrow> (int \<times> py_exception) option \<times> watch list \<times> string set \<times> 'w run_state" where
  "process_pages ip_ok browser brand [] acc = (None, acc)"
| "process_pages ip_ok browser brand (page_num # page_nums) (brand_watches, processed, st) =
     (case with_retry 3 (process_brand_page ip_ok browser brand page_num) st of
        (Inl e, st1) \<Rightarrow> (Some (page_num, e), brand_watches, processed, st1)
      | (Inr False, st1) \<Rightarrow>
          (None, brand_watches, processed,
           add_log [LogWarning (''Failed to process page '' @ str_int page_num
                                 @ '', stopping pagination'')] st1)
      | (Inr True, st1) \<Rightarrow>
          (case process_listing_page ip_ok (page st1) of
             (Inl e, lg) \<Rightarrow> (Some (page_num, e), brand_watches, processed, add_log lg st1)
           | (Inr watch_urls, lg) \<Rightarrow>
               if watch_urls = [] then (None, brand_watches, processed, add_log lg st1)
               else
                 (let new_urls = filter (\<lambda>u. u \<notin> processed) watch_urls
                  in if new_urls = [] then (None, brand_watches, processed, add_log lg st1)
                     else
                       (let (brand_watches, processed, st2) =
                              process_watches ip_ok browser brand page_num new_urls
                                (brand_watches, processed, add_log lg st1);
                            st3 = st2\<lparr>progress_store :=
                                        save_progress (b_name brand)
                                          \<lparr>current_page = Some (page_num + 1),
                                             processed_urls = Some processed\<rparr>
                                          (progress_store st2)\<rparr>
                        in process_pages ip_ok browser brand page_nums
                             (brand_watches, processed, st3)))))"

definition process_brand ::
    "(string \<Rightarrow> bool) \<Rightarrow> 'w browser \<Rightarrow> brand \<Rightarrow> 'w run_state \<Rightarrow> watch list \<times> 'w run_state" where
  "process_brand ip_ok browser brand st =
     (let (progress, lg) = load_progress (progress_store st) (b_name brand);
          start_page = (case current_page progress of None \<Rightarrow> 1 | Some n \<Rightarrow> n);
          processed = (case processed_urls progress of None \<Rightarrow> {} | Some s \<Rightarrow> s)
      in case process_pages ip_ok browser brand [start_page..99] ([], processed, add_log lg st) of
           (None, brand_watches, processed, st1) \<Rightarrow> (brand_watches, st1)
         | (Some (page_num, e), brand_watches, processed, st1) \<Rightarrow>
             (brand_watches,
              (add_log [LogError (''Error processing brand '' @ b_name brand @ '': ''
                                   @ exn_text e)] st1)
                \<lparr>progress_store :=
                    save_progress (b_name brand)
                      \<lparr>current_page = Some page_num, processed_urls = Some processed\<rparr>
                      (progress_store st1)\<rparr>))"

text \<open>The requests a call has added to those made before it.\<close>

definition new_requests :: "'w run_state \<Rightarrow> 'w run_state \<Rightarrow> request list" where
  "new_requests st st1 = drop (length (requests st)) (requests st1)"


section \<open>Example inputs\<close>

text \<open>Three records for the examples: two of them share one URL.\<close>

definition rolex_a :: watch where
  "rolex_a = \<lparr>w_url = Some ''https://www.chrono24.com/rolex/a.htm'', w_name = ''Rolex A'',
      w_price = ''$1'', w_description = [], w_specifications = []\<rparr>"

definition rolex_a2 :: watch where
  "rolex_a2 = rolex_a \<lparr>w_name := ''Rolex A again''\<rparr>"

definition rolex_b :: watch where
  "rolex_b = \<lparr>w_url = Some ''https://www.chrono24.com/rolex/b.htm'', w_name = ''Rolex B'',
      w_price = ''$2'', w_description = [], w_specifications = []\<rparr>"

text \<open>A table row with a header cell and one data cell.\<close>

definition row_of :: "string \<Rightarrow> string \<Rightarrow> table_row" where
  "row_of k v = \<lparr>th_cell = Some k, td_first_child = None, td_last_child = Some v,
                 td_nth_child_2 = None\<rparr>"


section \<open>Facts about strings and the URL functions\<close>

lemma before_first_append: "c \<notin> set xs \<Longrightarrow> before_first c (xs @ c # ys) = xs"
  by (induction xs) (auto simp: before_first_def)

lemma after_first_append: "c \<notin> set xs \<Longrightarrow> after_first c (xs @ c # ys) = ys"
  by (induction xs) (auto simp: after_first_def)

lemma before_first_notin: "c \<notin> set s \<Longrightarrow> before_first c s = s"
  by (induction s) (auto simp: before_first_def)

lemma notin_before_first: "c \<notin> set (before_first c s)"
  by (induction s) (auto simp: before_first_def)

lemma set_before_first: "set (before_first c s) \<subseteq> set s"
  by (auto simp: before_first_def dest: set_takeWhileD)

lemma set_after_first: "set (after_first c s) \<subseteq> set s"
  by (auto simp: after_first_def dest: in_set_dropD set_dropWhileD)

lemma split_at_append:
  "c \<notin> set xs \<Longrightarrow> split_at c (xs @ c # ys) = (xs, ys)"
  by (simp add: split_at_def before_first_append after_first_append)

lemma split_at_notin: "c \<notin> set s \<Longrightarrow> split_at c s = (s, [])"
  by (simp add: split_at_def)

lemma split_at_sets:
  "split_at c s = (a, b) \<Longrightarrow> c \<notin> set a \<and> set a \<subseteq> set s \<and> set b \<subseteq> set s"
  using set_before_first [of c s] set_after_first [of c s] notin_before_first [of c s]
  by (auto simp: split_at_def split: if_splits)

lemma split_at_head:
  "split_at c s = (a, b) \<Longrightarrow> s \<noteq> [] \<Longrightarrow> hd s \<noteq> c \<Longrightarrow> a \<noteq> [] \<and> hd a = hd s"
  by (cases s) (auto simp: split_at_def before_first_def split: if_splits)

lemma split_at_head_eq:
  "split_at c s = (a, b) \<Longrightarrow> s \<noteq> [] \<Longrightarrow> hd s = c \<Longrightarrow> a = []"
  by (cases s) (auto simp: split_at_def before_first_def split: if_splits)

lemma length_ascii_case: "length ascii_uppercase = length ascii_lowercase"
  by (simp add: ascii_uppercase_def ascii_lowercase_def)

lemma lower_char_cases: "lower_char c = c \<or> lower_char c \<in> set ascii_lowercase"
proof (cases "map_of (zip ascii_uppercase ascii_lowercase) c")
  case None
  then show ?thesis by (simp add: lower_char_def)
next
  case (Some l)
  then have "(c, l) \<in> set (zip ascii_uppercase ascii_lowercase)" by (rule map_of_SomeD)
  then have "l \<in> set ascii_lowercase" by (rule set_zip_rightD)
  with Some show ?thesis by (simp add: lower_char_def)
qed

lemma lowercase_not_uppercase: "set ascii_lowercase \<inter> set ascii_uppercase = {}"
proof -
  have "list_all (\<lambda>c. c \<notin> set ascii_uppercase) ascii_lowercase" by code_simp
  then show ?thesis by (auto simp: list_all_iff)
qed

lemma lower_char_lowercase:
  assumes "c \<in> set ascii_lowercase"
  shows "lower_char c = c"
proof -
  have "c \<notin> set ascii_uppercase"
    using assms lowercase_not_uppercase by blast
  then have "map_of (zip ascii_uppercase ascii_lowercase) c = None"
    using map_of_zip_is_None [OF length_ascii_case] by simp
  then show ?thesis by (simp add: lower_char_def)
qed

lemma lower_char_idem: "lower_char (lower_char c) = lower_char c"
  using lower_char_cases [of c] lower_char_lowercase [of "lower_char c"] by auto

lemma lower_idem: "lower (lower s) = lower s"
  by (simp add: lower_def lower_char_idem)

lemma lower_char_scheme_chars:
  assumes "c \<in> set scheme_chars"
  shows "lower_char c \<in> set scheme_chars"
proof -
  have "set ascii_lowercase \<subseteq> set scheme_chars"
    unfolding scheme_chars_def set_append by blast
  then show ?thesis using lower_char_cases [of c] assms by auto
qed

lemma lower_char_alpha:
  assumes "ascii_alpha c"
  shows "ascii_alpha (lower_char c)"
proof -
  have "set ascii_lowercase \<subseteq> {c. ascii_alpha c}"
    unfolding ascii_alpha_def set_append by blast
  then show ?thesis using lower_char_cases [of c] assms by auto
qed

lemma colon_not_scheme_char: "CHR '':'' \<notin> set scheme_chars"
  by code_simp

lemma alpha_not_c0: "ascii_alpha c \<Longrightarrow> \<not> c0_control_or_space c"
proof -
  have "list_all (\<lambda>c. \<not> c0_control_or_space c) (ascii_lowercase @ ascii_uppercase)"
    by code_simp
  then show "ascii_alpha c \<Longrightarrow> \<not> c0_control_or_space c"
    unfolding list_all_iff ascii_alpha_def by blast
qed

lemma has_scheme_compose:
  assumes "scheme_ok s"
  shows "has_scheme (s @ CHR '':'' # rest)"
    and "before_first CHR '':'' (s @ CHR '':'' # rest) = s"
    and "after_first CHR '':'' (s @ CHR '':'' # rest) = rest"
proof -
  have nc: "CHR '':'' \<notin> set s"
    using assms colon_not_scheme_char by (auto simp: scheme_ok_def list_all_iff)
  show b: "before_first CHR '':'' (s @ CHR '':'' # rest) = s"
    using nc by (rule before_first_append)
  show "after_first CHR '':'' (s @ CHR '':'' # rest) = rest"
    using nc by (rule after_first_append)
  show "has_scheme (s @ CHR '':'' # rest)"
    using assms unfolding has_scheme_def b by (cases s) (auto simp: scheme_ok_def)
qed

lemma split_scheme_compose:
  assumes "scheme_ok s"
  shows "split_scheme (s @ CHR '':'' # rest) d = (s, rest)"
  using has_scheme_compose [OF assms, of rest] assms
  by (simp add: split_scheme_def scheme_ok_def)

lemma split_scheme_facts:
  assumes "split_scheme u [] = (s, rest)"
  shows "(s = [] \<or> scheme_ok s) \<and> set rest \<subseteq> set u"
proof (cases "has_scheme u")
  case False
  with assms show ?thesis by (simp add: split_scheme_def)
next
  case True
  let ?h = "before_first CHR '':'' u"
  have s: "s = lower ?h" and r: "rest = after_first CHR '':'' u"
    using assms True by (simp_all add: split_scheme_def)
  have h: "?h \<noteq> []" "ascii_alpha (hd u)" "list_all (\<lambda>c. c \<in> set scheme_chars) ?h"
    using True by (simp_all add: has_scheme_def)
  have hd: "hd ?h = hd u"
    using h(1) by (cases u) (auto simp: before_first_def split: if_splits)
  have "scheme_ok (lower ?h)"
    unfolding scheme_ok_def
    using h hd lower_char_alpha lower_char_scheme_chars
    by (auto simp: lower_def hd_map list_all_iff lower_char_idem)
  then show ?thesis using s r set_after_first by auto
qed

lemma clean_url_safe: "\<forall>c\<in>set (clean_url u). \<not> unsafe_url_byte c"
  by (simp add: clean_url_def)

lemma clean_url_id:
  assumes "u \<noteq> []" and "\<not> c0_control_or_space (hd u)" and "\<forall>c\<in>set u. \<not> unsafe_url_byte c"
  shows "clean_url u = u"
proof -
  have "dropWhile c0_control_or_space u = u" using assms(1,2) by (cases u) simp_all
  then show ?thesis using assms(3) by (simp add: clean_url_def)
qed

lemma split_netloc_compose:
  assumes "\<forall>c\<in>set n. \<not> netloc_delim c" and "rest = [] \<or> netloc_delim (hd rest)"
  shows "split_netloc (''//'' @ n @ rest) = (n, rest)"
proof -
  have "takeWhile (\<lambda>c. \<not> netloc_delim c) (n @ rest) = n"
    using assms by (cases rest) (simp_all add: takeWhile_append2)
  moreover have "dropWhile (\<lambda>c. \<not> netloc_delim c) (n @ rest) = rest"
    using assms by (cases rest) (simp_all add: dropWhile_append2)
  ultimately show ?thesis by (simp add: split_netloc_def splitnetloc_def)
qed

lemma split_netloc_facts:
  assumes "split_netloc u = (n, rest)"
  shows "(\<forall>c\<in>set n. \<not> netloc_delim c) \<and> set n \<subseteq> set u \<and> set rest \<subseteq> set u
         \<and> (n \<noteq> [] \<longrightarrow> rest = [] \<or> netloc_delim (hd rest))"
proof (cases "take 2 u = ''//''")
  case False
  with assms show ?thesis by (simp add: split_netloc_def)
next
  case True
  then have n: "n = takeWhile (\<lambda>c. \<not> netloc_delim c) (drop 2 u)"
    and r: "rest = dropWhile (\<lambda>c. \<not> netloc_delim c) (drop 2 u)"
    using assms by (simp_all add: split_netloc_def splitnetloc_def)
  have "rest = [] \<or> netloc_delim (hd rest)"
    unfolding r using hd_dropWhile [of "\<lambda>c. \<not> netloc_delim c" "drop 2 u"] by blast
  moreover have "set n \<subseteq> set u" unfolding n by (auto dest: set_takeWhileD in_set_dropD)
  moreover have "set rest \<subseteq> set u" unfolding r by (auto dest: set_dropWhileD in_set_dropD)
  moreover have "\<forall>c\<in>set n. \<not> netloc_delim c" unfolding n by (auto dest: set_takeWhileD)
  ultimately show ?thesis by blast
qed

lemma scheme_char_safe: "c \<in> set scheme_chars \<Longrightarrow> \<not> unsafe_url_byte c"
proof -
  have "list_all (\<lambda>c. \<not> unsafe_url_byte c) scheme_chars" by code_simp
  then show "c \<in> set scheme_chars \<Longrightarrow> \<not> unsafe_url_byte c"
    unfolding list_all_iff by blast
qed

lemma scheme_ok_safe: "scheme_ok s \<Longrightarrow> c \<in> set s \<Longrightarrow> \<not> unsafe_url_byte c"
  using scheme_char_safe by (auto simp: scheme_ok_def list_all_iff)

lemma split_at_Nil [simp]: "split_at c [] = ([], [])"
  by (simp add: split_at_def)

lemma urlsplit_unfold:
  assumes "split_scheme (clean_url url0) (clean_scheme d) = (s, r1)"
    and "split_netloc r1 = (n, r2)"
    and "split_at CHR ''#'' r2 = (r3, f)"
    and "split_at CHR ''?'' r3 = (r4, q)"
  shows "urlsplit ip_ok url0 d =
           (if bad_brackets n then Inl (ValueError ''Invalid IPv6 URL'')
            else if bad_ip_literal ip_ok n then Inl (ValueError ''invalid bracketed host'')
            else Inr \<lparr>sr_scheme = s, sr_netloc = n, sr_url = r4, sr_query = q, sr_fragment = f\<rparr>)"
  using assms by (simp add: urlsplit_def Let_def)

lemma urlsplit_facts:
  assumes "urlsplit ip_ok url0 [] = Inr sr"
  shows "(\<forall>c \<in> set (sr_scheme sr) \<union> set (sr_netloc sr) \<union> set (sr_url sr) \<union> set (sr_query sr).
            \<not> unsafe_url_byte c)
         \<and> (sr_scheme sr = [] \<or> scheme_ok (sr_scheme sr))
         \<and> (\<forall>c\<in>set (sr_netloc sr). \<not> netloc_delim c)
         \<and> \<not> bad_brackets (sr_netloc sr) \<and> \<not> bad_ip_literal ip_ok (sr_netloc sr)
         \<and> CHR ''?'' \<notin> set (sr_url sr) \<and> CHR ''#'' \<notin> set (sr_url sr)
         \<and> CHR ''#'' \<notin> set (sr_query sr)
         \<and> (sr_netloc sr \<noteq> [] \<longrightarrow> sr_url sr = [] \<or> hd (sr_url sr) = CHR ''/'')"
proof -
  obtain s r1 where ss: "split_scheme (clean_url url0) (clean_scheme []) = (s, r1)" by fastforce
  obtain n r2 where sn: "split_netloc r1 = (n, r2)" by fastforce
  obtain r3 f where sf: "split_at CHR ''#'' r2 = (r3, f)" by fastforce
  obtain r4 q where sq: "split_at CHR ''?'' r3 = (r4, q)" by fastforce
  note unf = urlsplit_unfold [OF ss sn sf sq, of ip_ok]
  have nb: "\<not> bad_brackets n" and ni: "\<not> bad_ip_literal ip_ok n"
    and sr: "sr = \<lparr>sr_scheme = s, sr_netloc = n, sr_url = r4, sr_query = q, sr_fragment = f\<rparr>"
    using assms unfolding unf by (auto split: if_splits)
  have cs: "clean_scheme [] = []" by (simp add: clean_scheme_def)
  have f1: "(s = [] \<or> scheme_ok s) \<and> set r1 \<subseteq> set (clean_url url0)"
    using split_scheme_facts ss unfolding cs by blast
  have f2: "(\<forall>c\<in>set n. \<not> netloc_delim c) \<and> set n \<subseteq> set r1 \<and> set r2 \<subseteq> set r1
         \<and> (n \<noteq> [] \<longrightarrow> r2 = [] \<or> netloc_delim (hd r2))"
    using split_netloc_facts [OF sn] .
  have f3: "CHR ''#'' \<notin> set r3 \<and> set r3 \<subseteq> set r2 \<and> set f \<subseteq> set r2"
    using split_at_sets [OF sf] .
  have f4: "CHR ''?'' \<notin> set r4 \<and> set r4 \<subseteq> set r3 \<and> set q \<subseteq> set r3"
    using split_at_sets [OF sq] .
  have safe1: "\<forall>c\<in>set r1. \<not> unsafe_url_byte c"
    using f1 clean_url_safe by blast
  have safe: "\<forall>c \<in> set s \<union> set n \<union> set r4 \<union> set q. \<not> unsafe_url_byte c"
  proof
    fix c assume "c \<in> set s \<union> set n \<union> set r4 \<union> set q"
    then consider "c \<in> set s" | "c \<in> set r1" using f2 f3 f4 by blast
    then show "\<not> unsafe_url_byte c"
    proof cases
      case 1
      then have "s \<noteq> []" by auto
      then show ?thesis using f1 1 scheme_ok_safe by blast
    next
      case 2
      then show ?thesis using safe1 by blast
    qed
  qed
  have hd4: "r4 = [] \<or> hd r4 = CHR ''/''" if "n \<noteq> []"
  proof -
    from that f2 consider "r2 = []" | "r2 \<noteq> []" "netloc_delim (hd r2)" by blast
    then show ?thesis
    proof cases
      case 1
      then have "r3 = []" using sf by simp
      then show ?thesis using sq by simp
    next
      case 2
      then consider "hd r2 = CHR ''/''" | "hd r2 = CHR ''?''" | "hd r2 = CHR ''#''"
        by (auto simp: netloc_delim_def)
      then show ?thesis
      proof cases
        case 1
        then have "r3 \<noteq> [] \<and> hd r3 = CHR ''/''" using split_at_head [OF sf 2(1)] by simp
        then show ?thesis using split_at_head [OF sq] by simp
      next
        case 2
        then have "r3 \<noteq> [] \<and> hd r3 = CHR ''?''" using split_at_head [OF sf \<open>r2 \<noteq> []\<close>] by simp
        then show ?thesis using split_at_head_eq [OF sq] by simp
      next
        case 3
        then have "r3 = []" using split_at_head_eq [OF sf \<open>r2 \<noteq> []\<close>] by simp
        then show ?thesis using sq by simp
      qed
    qed
  qed
  have "CHR ''#'' \<notin> set r4" "CHR ''#'' \<notin> set q" using f3 f4 by blast+
  then show ?thesis
    unfolding sr using safe f1 f2 f4 nb ni hd4 by simp
qed

lemma urlsplit_compose:
  assumes s: "scheme_ok s"
    and n: "\<forall>c\<in>set n. \<not> netloc_delim c" "\<not> bad_brackets n" "\<not> bad_ip_literal ip_ok n"
    and p: "pth \<noteq> []" "hd pth = CHR ''/''" "CHR ''?'' \<notin> set pth" "CHR ''#'' \<notin> set pth"
    and q: "CHR ''#'' \<notin> set q"
    and safe: "\<forall>c \<in> set s \<union> set n \<union> set pth \<union> set q. \<not> unsafe_url_byte c"
  shows "urlsplit ip_ok (s @ ''://'' @ n @ pth @ (if q \<noteq> [] then ''?'' @ q else [])) d
           = Inr \<lparr>sr_scheme = s, sr_netloc = n, sr_url = pth, sr_query = q, sr_fragment = []\<rparr>"
proof -
  let ?qs = "if q \<noteq> [] then ''?'' @ q else []"
  let ?u = "s @ ''://'' @ n @ pth @ ?qs"
  have s0: "s \<noteq> []" "ascii_alpha (hd s)" using s by (simp_all add: scheme_ok_def)
  have usafe: "\<forall>c\<in>set ?u. \<not> unsafe_url_byte c"
    using safe by (auto simp: unsafe_url_byte_def)
  have "hd ?u = hd s" using s0 by simp
  then have cu: "clean_url ?u = ?u"
    using clean_url_id [of ?u] usafe s0 alpha_not_c0 by simp
  have ss: "split_scheme (clean_url ?u) (clean_scheme d) = (s, ''//'' @ n @ pth @ ?qs)"
    unfolding cu using split_scheme_compose [OF s, of "''//'' @ n @ pth @ ?qs"] by simp
  have sn: "split_netloc (''//'' @ n @ pth @ ?qs) = (n, pth @ ?qs)"
    using split_netloc_compose [of n "pth @ ?qs"] n(1) p(1,2)
    by (simp add: netloc_delim_def)
  have sf: "split_at CHR ''#'' (pth @ ?qs) = (pth @ ?qs, [])"
    using p(4) q by (intro split_at_notin) simp
  have sq: "split_at CHR ''?'' (pth @ ?qs) = (pth, q)"
    using split_at_append [of "CHR ''?''" pth q] split_at_notin [of "CHR ''?''" pth] p(3)
    by simp
  show ?thesis
    using urlsplit_unfold [OF ss sn sf sq, of ip_ok] n(2,3) by simp
qed

lemma slash_notin_last_segment: "CHR ''/'' \<notin> set (last_segment u)"
  by (auto simp: last_segment_def dest: set_takeWhileD)

lemma set_last_segment: "set (last_segment u) \<subseteq> set u"
  by (auto simp: last_segment_def dest: set_takeWhileD)

lemma last_segment_append:
  assumes "CHR ''/'' \<notin> set b"
  shows "last_segment (a @ b) = last_segment a @ b"
proof -
  have "takeWhile (\<lambda>c. c \<noteq> CHR ''/'') (rev b @ rev a)
          = rev b @ takeWhile (\<lambda>c. c \<noteq> CHR ''/'') (rev a)"
    using assms by (intro takeWhile_append2) auto
  then show ?thesis by (simp add: last_segment_def)
qed

lemma last_segment_noslash: "CHR ''/'' \<notin> set b \<Longrightarrow> last_segment b = b"
  using last_segment_append [of b "[]"] by (simp add: last_segment_def)

lemma last_segment_slash:
  assumes "CHR ''/'' \<notin> set b"
  shows "last_segment (a @ CHR ''/'' # b) = b"
proof -
  have "last_segment ((a @ ''/'') @ b) = last_segment (a @ ''/'') @ b"
    using assms by (rule last_segment_append)
  moreover have "last_segment (a @ ''/'') = []" by (simp add: last_segment_def)
  ultimately show ?thesis by simp
qed

lemma last_segment_split:
  assumes "CHR ''/'' \<in> set u"
  shows "\<exists>a. u = a @ CHR ''/'' # last_segment u
           \<and> take (length u - length (last_segment u)) u = a @ ''/''"
proof -
  have "CHR ''/'' \<in> set (rev u)" using assms by simp
  then obtain ys zs where r: "rev u = ys @ CHR ''/'' # zs" and ny: "CHR ''/'' \<notin> set ys"
    using split_list_first [of "CHR ''/''" "rev u"] by blast
  have "rev (rev u) = rev (ys @ CHR ''/'' # zs)" using r by (rule arg_cong)
  then have u: "u = rev zs @ CHR ''/'' # rev ys" by simp
  have ls: "last_segment u = rev ys"
    unfolding u using ny by (intro last_segment_slash) simp
  have "take (length u - length (rev ys)) u = rev zs @ ''/''"
    unfolding u by simp
  then show ?thesis using u ls by auto
qed


lemma splitparams_facts:
  assumes "splitparams u = (a, b)"
  shows "CHR '';'' \<notin> set (last_segment a) \<and> set a \<subseteq> set u
         \<and> (u \<noteq> [] \<and> hd u = CHR ''/'' \<longrightarrow> a \<noteq> [] \<and> hd a = CHR ''/'')"
proof (cases "CHR ''/'' \<in> set u")
  case False
  then have a: "a = before_first CHR '';'' u" using assms by (simp add: splitparams_def)
  have "CHR ''/'' \<notin> set a" using False set_before_first [of "CHR '';''" u] a by auto
  then have "last_segment a = a" by (rule last_segment_noslash)
  moreover have "u \<noteq> [] \<Longrightarrow> hd u \<noteq> CHR ''/''" using False by (cases u) auto
  ultimately show ?thesis
    using a notin_before_first [of "CHR '';''" u] set_before_first [of "CHR '';''" u] by auto
next
  case True
  define L where "L = last_segment u"
  show ?thesis
  proof (cases "CHR '';'' \<notin> set L")
    case True
    then have "a = u" using assms \<open>CHR ''/'' \<in> set u\<close> by (simp add: splitparams_def L_def)
    then show ?thesis using True by (auto simp: L_def)
  next
    case False
    obtain d where d: "u = d @ CHR ''/'' # L" "take (length u - length L) u = d @ ''/''"
      using last_segment_split [OF True] unfolding L_def by blast
    define h where "h = before_first CHR '';'' L"
    have a: "a = d @ CHR ''/'' # h"
      using assms True False d(2) by (simp add: splitparams_def L_def h_def)
    have hL: "set h \<subseteq> set L" unfolding h_def by (rule set_before_first)
    have "CHR ''/'' \<notin> set L" unfolding L_def by (rule slash_notin_last_segment)
    then have nh: "CHR ''/'' \<notin> set h" using hL by auto
    have "last_segment a = h" unfolding a using nh by (rule last_segment_slash)
    moreover have "CHR '';'' \<notin> set h" unfolding h_def by (rule notin_before_first)
    moreover have "set a \<subseteq> set u" unfolding a d(1) using hL by auto
    moreover have "hd a = hd u \<and> a \<noteq> []" unfolding a d(1) by (cases d) simp_all
    ultimately show ?thesis by simp
  qed
qed

lemma urlparse_unfold:
  assumes "urlsplit ip_ok url0 d = Inr sr"
  shows "urlparse ip_ok url0 d =
           Inr \<lparr>scheme = sr_scheme sr, netloc = sr_netloc sr,
                 path = (if sr_scheme sr \<in> set uses_params \<and> CHR '';'' \<in> set (sr_url sr)
                         then fst (splitparams (sr_url sr)) else sr_url sr),
                 params = (if sr_scheme sr \<in> set uses_params \<and> CHR '';'' \<in> set (sr_url sr)
                           then snd (splitparams (sr_url sr)) else []),
                 query = sr_query sr, fragment = sr_fragment sr\<rparr>"
  using assms by (simp add: urlparse_def Let_def case_prod_beta)

lemma urlparse_Inr_split:
  assumes "urlparse ip_ok url0 d = Inr p"
  shows "\<exists>sr. urlsplit ip_ok url0 d = Inr sr"
  using assms by (cases "urlsplit ip_ok url0 d") (simp_all add: urlparse_def)

lemma urlparse_facts:
  assumes "urlparse ip_ok url0 [] = Inr p"
  shows "parsed_ok ip_ok p"
proof -
  obtain sr where sr: "urlsplit ip_ok url0 [] = Inr sr"
    using urlparse_Inr_split [OF assms] by blast
  note f = urlsplit_facts [OF sr]
  note p = assms [unfolded urlparse_unfold [OF sr], simplified]
  show ?thesis
  proof (cases "sr_scheme sr \<in> set uses_params \<and> CHR '';'' \<in> set (sr_url sr)")
    case False
    then have pp: "path p = sr_url sr" using p by auto
    have "scheme p \<in> set uses_params \<longrightarrow> CHR '';'' \<notin> set (last_segment (path p))"
      using False p set_last_segment [of "sr_url sr"] pp by auto
    then show ?thesis
      unfolding parsed_ok_def using f p pp by auto
  next
    case True
    obtain a b where ab: "splitparams (sr_url sr) = (a, b)" by fastforce
    then have pp: "path p = a" using p True by auto
    note g = splitparams_facts [OF ab]
    have sub: "set (path p) \<subseteq> set (sr_url sr)" using g pp by simp
    have "netloc p \<noteq> [] \<longrightarrow> path p = [] \<or> hd (path p) = CHR ''/''"
      using f g pp p True by auto
    then show ?thesis
      unfolding parsed_ok_def using f g p pp sub by auto
  qed
qed

lemma length_digits: "length digits = 10"
  by (simp add: digits_def)

lemma digit_char_in: "d < 10 \<Longrightarrow> digit_char d \<in> set digits"
  unfolding digit_char_def by (rule nth_mem) (simp add: length_digits)

lemma set_str_nat: "set (str_nat n) \<subseteq> set digits"
proof (induction n rule: str_nat.induct)
  case (1 n)
  show ?case
  proof (cases "n < 10")
    case True
    then have "str_nat n = [digit_char n]" by (subst str_nat.simps) simp
    then show ?thesis using digit_char_in [OF True] by simp
  next
    case False
    then have e: "str_nat n = str_nat (n div 10) @ [digit_char (n mod 10)]"
      by (subst str_nat.simps) simp
    have "n mod 10 < 10" by simp
    then have "digit_char (n mod 10) \<in> set digits" by (rule digit_char_in)
    then show ?thesis unfolding e using "1.IH" [OF False] by simp
  qed
qed

lemma set_str_int: "set (str_int i) \<subseteq> insert CHR ''-'' (set digits)"
  using set_str_nat [of "nat i"] set_str_nat [of "nat (- i)"]
  unfolding str_int_def by (cases "i < 0") auto

lemma marker_chars:
  assumes "c \<in> set (''index-'' @ str_int n @ ''.htm'')"
  shows "marker_char c"
proof -
  have g1: "list_all marker_char ''index-''" by code_simp
  have g2: "list_all marker_char ''.htm''" by code_simp
  have g3: "list_all marker_char (CHR ''-'' # digits)" by code_simp
  from assms consider "c \<in> set ''index-''" | "c \<in> set (str_int n)" | "c \<in> set ''.htm''"
    by (simp only: set_append Un_iff) blast
  then show ?thesis
  proof cases
    case 1 then show ?thesis using g1 unfolding list_all_iff by blast
  next
    case 2
    then have "c \<in> set (CHR ''-'' # digits)" using set_str_int [of n] by auto
    then show ?thesis using g3 unfolding list_all_iff by blast
  next
    case 3 then show ?thesis using g2 unfolding list_all_iff by blast
  qed
qed


lemma urlparse_compose:
  assumes s: "scheme_ok s"
    and n: "\<forall>c\<in>set n. \<not> netloc_delim c" "\<not> bad_brackets n" "\<not> bad_ip_literal ip_ok n"
    and p: "pth \<noteq> []" "hd pth = CHR ''/''" "CHR ''?'' \<notin> set pth" "CHR ''#'' \<notin> set pth"
    and q: "CHR ''#'' \<notin> set q"
    and safe: "\<forall>c \<in> set s \<union> set n \<union> set pth \<union> set q. \<not> unsafe_url_byte c"
    and semi: "s \<in> set uses_params \<longrightarrow> CHR '';'' \<notin> set (last_segment pth)"
  shows "urlparse ip_ok (s @ ''://'' @ n @ pth @ (if q \<noteq> [] then ''?'' @ q else [])) d
           = Inr \<lparr>scheme = s, netloc = n, path = pth, params = [], query = q, fragment = []\<rparr>"
proof -
  note sp = urlsplit_compose [OF s n p q safe, of d]
  have sl: "CHR ''/'' \<in> set pth" using p(1,2) by (cases pth) auto
  have "splitparams pth = (pth, [])" if "s \<in> set uses_params"
    using that semi sl by (simp add: splitparams_def)
  then show ?thesis
    unfolding urlparse_unfold [OF sp] by auto
qed

text \<open>The path of page \<open>n\<close>, as \<open>get_pagination_url\<close> builds it from the parsed path.\<close>

lemma get_pagination_url_unfold:
  assumes "urlparse ip_ok base_url [] = Inr p" and "n \<noteq> 1"
  shows "get_pagination_url ip_ok base_url n =
           Inr (scheme p @ ''://'' @ netloc p
                @ (if suffix ''index.htm'' (path p)
                   then take (length (path p) - 9) (path p) @ ''index-'' @ str_int n @ ''.htm''
                   else if suffix ''/'' (path p) then path p @ ''index-'' @ str_int n @ ''.htm''
                   else path p @ ''/'' @ ''index-'' @ str_int n @ ''.htm'')
                @ (if query p \<noteq> [] then ''?'' @ query p else []))"
  using assms by (simp add: get_pagination_url_def Let_def)

lemma new_path_ok:
  assumes ok: "parsed_ok ip_ok p" and nl: "netloc p \<noteq> []"
    and np: "new_path = stem @ ''index-'' @ str_int n @ ''.htm''"
    and st: "(path p = stem @ ''index.htm'') \<or> (path p = stem \<and> suffix ''/'' stem)
             \<or> (stem = path p @ ''/'')"
  shows "new_path \<noteq> [] \<and> hd new_path = CHR ''/'' \<and> CHR ''?'' \<notin> set new_path
         \<and> CHR ''#'' \<notin> set new_path \<and> (\<forall>c\<in>set new_path. \<not> unsafe_url_byte c)
         \<and> (scheme p \<in> set uses_params \<longrightarrow> CHR '';'' \<notin> set (last_segment new_path))"
proof -
  let ?m = "''index-'' @ str_int n @ ''.htm''"
  have m: "\<And>c. c \<in> set ?m \<Longrightarrow> marker_char c" by (rule marker_chars)
  have pth: "path p = [] \<or> hd (path p) = CHR ''/''" using ok nl by (simp add: parsed_ok_def)
  have psafe: "\<forall>c\<in>set (path p). \<not> unsafe_url_byte c"
    and pq: "CHR ''?'' \<notin> set (path p)" "CHR ''#'' \<notin> set (path p)"
    and semi: "scheme p \<in> set uses_params \<longrightarrow> CHR '';'' \<notin> set (last_segment (path p))"
    using ok by (simp_all add: parsed_ok_def)
  have mslash: "CHR ''/'' \<notin> set ?m" using m unfolding marker_char_def by blast
  have msemi: "CHR '';'' \<notin> set ?m" using m unfolding marker_char_def by blast
  have ls: "last_segment new_path = last_segment stem @ ?m"
    unfolding np using mslash by (rule last_segment_append)
  have stem_set: "set stem \<subseteq> insert CHR ''/'' (set (path p))"
    using st by auto
  have stem_hd: "stem \<noteq> [] \<and> hd stem = CHR ''/''"
  proof -
    from st consider (a) "path p = stem @ ''index.htm''" | (b) "path p = stem" "suffix ''/'' stem"
      | (c) "stem = path p @ ''/''" by blast
    then show ?thesis
    proof cases
      case a
      then have "stem \<noteq> []" using pth by (cases stem) auto
      then show ?thesis using a pth by (cases stem) auto
    next
      case b
      then have "stem \<noteq> []" by (auto simp: suffix_def)
      then show ?thesis using b pth by auto
    next
      case c
      then show ?thesis using pth by (cases "path p") auto
    qed
  qed
  have stem_semi: "CHR '';'' \<notin> set (last_segment stem)" if "scheme p \<in> set uses_params"
  proof -
    from st consider (a) "path p = stem @ ''index.htm''" | (b) "path p = stem"
      | (c) "stem = path p @ ''/''" by blast
    then show ?thesis
    proof cases
      case a
      have "CHR ''/'' \<notin> set ''index.htm''" by simp
      then have "last_segment (stem @ ''index.htm'') = last_segment stem @ ''index.htm''"
        by (rule last_segment_append)
      then show ?thesis using semi that a by auto
    next
      case b then show ?thesis using semi that by simp
    next
      case c then show ?thesis by (simp add: last_segment_def)
    qed
  qed
  have "new_path \<noteq> [] \<and> hd new_path = CHR ''/''" unfolding np using stem_hd by simp
  moreover have "CHR ''?'' \<notin> set new_path \<and> CHR ''#'' \<notin> set new_path"
    unfolding np using stem_set pq m unfolding marker_char_def by auto
  moreover have "\<forall>c\<in>set new_path. \<not> unsafe_url_byte c"
  proof
    fix c assume "c \<in> set new_path"
    then consider "c \<in> set (path p)" | "c = CHR ''/''" | "c \<in> set ?m"
      unfolding np using stem_set by auto
    then show "\<not> unsafe_url_byte c"
    proof cases
      case 1 then show ?thesis using psafe by blast
    next
      case 2 then show ?thesis by (simp add: unsafe_url_byte_def)
    next
      case 3 then show ?thesis using m unfolding marker_char_def by blast
    qed
  qed
  moreover have "scheme p \<in> set uses_params \<longrightarrow> CHR '';'' \<notin> set (last_segment new_path)"
    unfolding ls using stem_semi msemi by auto
  ultimately show ?thesis by blast
qed

lemma urlparse_BASE_URL:
  "urlparse ip_ok BASE_URL [] = Inr \<lparr>scheme = ''https'', netloc = ''www.chrono24.com'', path = [],
      params = [], query = [], fragment = []\<rparr>"
  by code_simp

lemma https_uses: "''https'' \<in> set uses_relative" "''https'' \<in> set uses_netloc"
  by code_simp+

lemma BASE_URL_nonempty: "BASE_URL \<noteq> []"
  by (simp add: BASE_URL_def)

lemma prefix_https_BASE_URL: "prefix ''https://'' BASE_URL"
  by (simp add: BASE_URL_def)

lemma urlunparse_https:
  assumes "scheme c = ''https''" and "netloc c \<noteq> []"
  shows "\<exists>rest. urlunparse c = ''https://'' @ netloc c @ rest"
  using assms by (simp add: urlunparse_def urlunsplit_def Let_def)

lemma urljoin_BASE_URL:
  "urljoin ip_ok BASE_URL v =
     (if v = [] then Inr BASE_URL
      else (case urlparse ip_ok v ''https'' of
              Inl e \<Rightarrow> Inl e
            | Inr p \<Rightarrow>
                if scheme p \<noteq> ''https'' then Inr v
                else if netloc p \<noteq> [] then Inr (urlunparse p)
                else if path p = [] \<and> params p = []
                then Inr (urlunparse \<lparr>scheme = ''https'', netloc = ''www.chrono24.com'', path = [],
                            params = [], query = query p, fragment = fragment p\<rparr>)
                else
                  (let segments =
                         (if take 1 (path p) = ''/'' then split_slash (path p)
                          else (let segments = [[]] @ split_slash (path p) in
                                if length segments \<le> 1 then segments
                                else hd segments # filter (\<lambda>s. s \<noteq> []) (butlast (tl segments))
                                       @ [last segments]));
                       resolved_path = resolve_segments segments [];
                       resolved_path =
                         (if last segments \<in> {''.'', ''..''} then resolved_path @ [[]]
                          else resolved_path);
                       joined = join_slash resolved_path
                   in Inr (urlunparse \<lparr>scheme = ''https'', netloc = ''www.chrono24.com'',
                             path = (if joined = [] then ''/'' else joined),
                             params = params p, query = query p, fragment = fragment p\<rparr>))))"
  by (simp add: urljoin_def urlparse_BASE_URL https_uses BASE_URL_nonempty Let_def
           split: sum.splits)


text \<open>The three ways \<open>urljoin\<close> answers on the base origin.\<close>

lemma urljoin_BASE_URL_cases:
  assumes "urljoin ip_ok BASE_URL v = Inr r"
  shows "(v = [] \<and> r = BASE_URL)
       \<or> (\<exists>p. v \<noteq> [] \<and> urlparse ip_ok v ''https'' = Inr p
              \<and> ((scheme p \<noteq> ''https'' \<and> r = v)
                 \<or> (scheme p = ''https'' \<and> netloc p \<noteq> [] \<and> r = urlunparse p)
                 \<or> (scheme p = ''https'' \<and> netloc p = []
                      \<and> (\<exists>c. r = urlunparse c \<and> scheme c = ''https''
                               \<and> netloc c = ''www.chrono24.com''))))"
proof (cases "v = []")
  case True
  then show ?thesis using assms by (simp add: urljoin_BASE_URL)
next
  case False
  then obtain p where p: "urlparse ip_ok v ''https'' = Inr p"
    using assms by (cases "urlparse ip_ok v ''https''") (simp_all add: urljoin_BASE_URL)
  note r = assms [unfolded urljoin_BASE_URL, simplified False p, simplified]
  consider (other) "scheme p \<noteq> ''https''"
    | (host) "scheme p = ''https''" "netloc p \<noteq> []"
    | (rel) "scheme p = ''https''" "netloc p = []"
    by blast
  then show ?thesis
  proof cases
    case other
    then show ?thesis using r False p by simp
  next
    case host
    then show ?thesis using r False p by simp
  next
    case rel
    have "\<exists>c. r = urlunparse c \<and> scheme c = ''https'' \<and> netloc c = ''www.chrono24.com''"
    proof (cases "path p = [] \<and> params p = []")
      case True
      then have "r = urlunparse \<lparr>scheme = ''https'', netloc = ''www.chrono24.com'', path = [],
                            params = [], query = query p, fragment = fragment p\<rparr>"
        using r rel by simp
      then show ?thesis
        by (intro exI [of _ "\<lparr>scheme = ''https'', netloc = ''www.chrono24.com'', path = [],
                            params = [], query = query p, fragment = fragment p\<rparr>"]) simp
    next
      case False
      then obtain pa where
        "r = urlunparse \<lparr>scheme = ''https'', netloc = ''www.chrono24.com'', path = pa,
                            params = params p, query = query p, fragment = fragment p\<rparr>"
        using r rel by (auto simp: Let_def split: if_splits)
      then show ?thesis
        by (intro exI [of _ "\<lparr>scheme = ''https'', netloc = ''www.chrono24.com'', path = pa,
                            params = params p, query = query p, fragment = fragment p\<rparr>"]) simp
    qed
    then show ?thesis using rel False p by simp
  qed
qed

lemma urljoin_BASE_URL_result:
  assumes "urljoin ip_ok BASE_URL v = Inr r"
  shows "prefix ''https://'' r \<or> (r = v \<and> v \<noteq> [])"
proof -
  have h: "prefix ''https://'' (urlunparse c)" if "scheme c = ''https''" "netloc c \<noteq> []" for c
    using urlunparse_https [OF that] by (auto simp: prefix_def)
  from urljoin_BASE_URL_cases [OF assms] show ?thesis
    using h prefix_https_BASE_URL by (elim disjE exE conjE) auto
qed

lemma make_absolute_url_fixed:
  assumes "make_absolute_url ip_ok u = Inr r"
  shows "make_absolute_url ip_ok r = Inr r"
proof (cases "prefix ''http://'' u \<or> prefix ''https://'' u")
  case True
  then have "r = u" using assms by (simp add: make_absolute_url_def)
  then show ?thesis using True by (simp add: make_absolute_url_def)
next
  case False
  define v where "v = dropWhile (\<lambda>c. c = CHR ''/'') u"
  have j: "urljoin ip_ok BASE_URL v = Inr r"
    using assms False by (simp add: make_absolute_url_def v_def)
  show ?thesis
  proof (cases "prefix ''http://'' r \<or> prefix ''https://'' r")
    case True
    then show ?thesis by (simp add: make_absolute_url_def)
  next
    case nopre: False
    then have "r = v" using urljoin_BASE_URL_result [OF j] by blast
    moreover have "dropWhile (\<lambda>c. c = CHR ''/'') v = v" by (simp add: v_def)
    ultimately show ?thesis using nopre j by (simp add: make_absolute_url_def)
  qed
qed


lemma urlunparse_on_base:
  assumes "scheme c = ''https''" and "netloc c = ''www.chrono24.com''"
  shows "prefix BASE_URL (urlunparse c)"
  using urlunparse_https [of c] assms by (auto simp: prefix_def BASE_URL_def)

lemma urlunparse_on_host:
  assumes "scheme c = ''https''" and "netloc c \<noteq> []"
  shows "prefix (''https://'' @ netloc c) (urlunparse c)"
  using urlunparse_https [OF assms] by (auto simp: prefix_def)

lemma requests_add_log [simp]: "requests (add_log l st) = requests st"
  by (simp add: add_log_def)

lemma page_add_log [simp]: "page (add_log l st) = page st"
  by (simp add: add_log_def)

lemma requests_goto [simp]: "requests (goto browser req u st) = requests st @ [req]"
  by (simp add: goto_def split: prod.splits)

text \<open>Listing walker: every URL it returns is a fixed point of make_absolute_url.\<close>

lemma collect_all_links_fixed:
  assumes "collect_all_links ip_ok links acc = (e, urls)"
    and "\<forall>u\<in>set acc. make_absolute_url ip_ok u = Inr u"
  shows "\<forall>u\<in>set urls. make_absolute_url ip_ok u = Inr u"
  using assms
proof (induction links arbitrary: acc)
  case Nil
  then show ?case by simp
next
  case (Cons link links)
  show ?case
  proof (cases link)
    case (Inl x)
    then show ?thesis using Cons.prems by simp
  next
    case (Inr h)
    show ?thesis
    proof (cases h)
      case None
      then show ?thesis using Cons Inr by simp
    next
      case (Some href)
      show ?thesis
      proof (cases "href = []")
        case True
        then show ?thesis using Cons Inr Some by simp
      next
        case False
        show ?thesis
        proof (cases "make_absolute_url ip_ok href")
          case (Inl x)
          then show ?thesis using Cons.prems Inr Some False by simp
        next
          case r: (Inr a)
          have "make_absolute_url ip_ok a = Inr a" using r by (rule make_absolute_url_fixed)
          then have "\<forall>u\<in>set (acc @ [a]). make_absolute_url ip_ok u = Inr u"
            using Cons.prems(2) by simp
          moreover have "collect_all_links ip_ok links (acc @ [a]) = (e, urls)"
            using Cons.prems(1) Inr Some False r by simp
          ultimately show ?thesis using Cons.IH by blast
        qed
      qed
    qed
  qed
qed

lemma collect_nth_links_fixed:
  assumes "collect_nth_links ip_ok links acc = (urls, lg)"
    and "\<forall>u\<in>set acc. make_absolute_url ip_ok u = Inr u"
  shows "\<forall>u\<in>set urls. make_absolute_url ip_ok u = Inr u"
  using assms
proof (induction links arbitrary: acc)
  case Nil
  then show ?case by simp
next
  case (Cons link links)
  show ?case
  proof (cases link)
    case (Inl x)
    then show ?thesis using Cons.prems by simp
  next
    case (Inr h)
    show ?thesis
    proof (cases h)
      case None
      then show ?thesis using Cons Inr by simp
    next
      case (Some href)
      show ?thesis
      proof (cases "href = []")
        case True
        then show ?thesis using Cons Inr Some by simp
      next
        case False
        show ?thesis
        proof (cases "make_absolute_url ip_ok href")
          case (Inl x)
          then show ?thesis using Cons.prems Inr Some False by simp
        next
          case r: (Inr a)
          have "make_absolute_url ip_ok a = Inr a" using r by (rule make_absolute_url_fixed)
          then have "\<forall>u\<in>set (acc @ [a]). make_absolute_url ip_ok u = Inr u"
            using Cons.prems(2) by simp
          moreover have "collect_nth_links ip_ok links (acc @ [a]) = (urls, lg)"
            using Cons.prems(1) Inr Some False r by simp
          ultimately show ?thesis using Cons.IH by blast
        qed
      qed
    qed
  qed
qed

lemma listing_fallback_fixed:
  assumes "listing_fallback ip_ok pv acc = (Inr urls, lg)"
    and "\<forall>u\<in>set acc. make_absolute_url ip_ok u = Inr u"
  shows "\<forall>u\<in>set urls. make_absolute_url ip_ok u = Inr u"
proof -
  obtain us l where c: "collect_nth_links ip_ok (pv_nth_links pv) acc = (us, l)" by fastforce
  have "urls = us"
    using assms(1) unfolding listing_fallback_def c
    by (auto simp: Let_def split: if_splits sum.splits)
  then show ?thesis using collect_nth_links_fixed [OF c assms(2)] by simp
qed

lemma process_listing_page_fixed:
  assumes "process_listing_page ip_ok pv = (Inr urls, lg)"
  shows "\<forall>u\<in>set urls. make_absolute_url ip_ok u = Inr u"
proof (cases "pv_all_links pv")
  case (Inl e)
  obtain r l where f: "listing_fallback ip_ok pv [] = (r, l)" by fastforce
  then have "r = Inr urls" using assms Inl by (simp add: process_listing_page_def)
  then show ?thesis using listing_fallback_fixed [of ip_ok pv "[]" urls l] f by simp
next
  case (Inr all_links)
  show ?thesis
  proof (cases "all_links = []")
    case True
    then have "listing_fallback ip_ok pv [] = (Inr urls, lg)"
      using assms Inr by (simp add: process_listing_page_def)
    then show ?thesis using listing_fallback_fixed [of ip_ok pv "[]" urls lg] by simp
  next
    case False
    obtain e us where c: "collect_all_links ip_ok all_links [] = (e, us)" by fastforce
    have fx: "\<forall>u\<in>set us. make_absolute_url ip_ok u = Inr u"
      using collect_all_links_fixed [OF c] by simp
    show ?thesis
    proof (cases e)
      case None
      then have "urls = us" using assms Inr False c by (simp add: process_listing_page_def)
      then show ?thesis using fx by simp
    next
      case (Some x)
      obtain r l where f: "listing_fallback ip_ok pv us = (r, l)" by fastforce
      then have "r = Inr urls" using assms Inr False c Some by (simp add: process_listing_page_def)
      then show ?thesis using listing_fallback_fixed [of ip_ok pv us urls l] f fx by simp
    qed
  qed
qed

lemma process_watch_detail_requests:
  "requests (snd (process_watch_detail ip_ok browser u name st)) =
     requests st @ (case make_absolute_url ip_ok u of Inl e \<Rightarrow> [] | Inr a \<Rightarrow> [DetailRequest a])"
  by (simp add: process_watch_detail_def Let_def split: sum.splits prod.splits)

lemma process_watches_acc:
  "\<exists>bw pr st1. process_watches ip_ok browser brand n urls (bw0, pr0, st) = (bw, pr, st1)
      \<and> pr0 \<subseteq> pr
      \<and> requests st1 = requests st
           @ concat (map (\<lambda>u. case make_absolute_url ip_ok u of Inl e \<Rightarrow> []
                                 | Inr a \<Rightarrow> [DetailRequest a]) urls)"
proof (induction urls arbitrary: bw0 pr0 st)
  case Nil
  then show ?case by simp
next
  case (Cons u urls)
  obtain w st1 where d: "process_watch_detail ip_ok browser u (b_name brand) st = (w, st1)"
    by fastforce
  have r1: "requests st1 = requests st
      @ (case make_absolute_url ip_ok u of Inl e \<Rightarrow> [] | Inr a \<Rightarrow> [DetailRequest a])"
    using process_watch_detail_requests [of ip_ok browser u "b_name brand" st] d by simp
  show ?case
  proof (cases w)
    case None
    from Cons.IH [of bw0 pr0 st1] obtain bw pr st2 where
      "process_watches ip_ok browser brand n urls (bw0, pr0, st1) = (bw, pr, st2)"
      "pr0 \<subseteq> pr"
      "requests st2 = requests st1
           @ concat (map (\<lambda>u. case make_absolute_url ip_ok u of Inl e \<Rightarrow> []
                                 | Inr a \<Rightarrow> [DetailRequest a]) urls)"
      by blast
    then show ?thesis using d None r1 by simp
  next
    case (Some watch_data)
    obtain ds lg where s: "save_watches_to_json [watch_data] (dataset st1) = (ds, lg)"
      by fastforce
    define st2 where "st2 = st1\<lparr>dataset := ds,
                         progress_store :=
                           save_progress (b_name brand)
                             \<lparr>current_page = Some n, processed_urls = Some (insert u pr0)\<rparr>
                             (progress_store st1),
                         logged := logged st1 @ lg\<rparr>"
    have r2: "requests st2 = requests st1" by (simp add: st2_def)
    from Cons.IH [of "bw0 @ [watch_data]" "insert u pr0" st2] obtain bw pr st3 where
      "process_watches ip_ok browser brand n urls (bw0 @ [watch_data], insert u pr0, st2) = (bw, pr, st3)"
      "insert u pr0 \<subseteq> pr"
      "requests st3 = requests st2
           @ concat (map (\<lambda>u. case make_absolute_url ip_ok u of Inl e \<Rightarrow> []
                                 | Inr a \<Rightarrow> [DetailRequest a]) urls)"
      by blast
    then show ?thesis using d Some s r1 r2 by (simp add: st2_def Let_def)
  qed
qed

lemma concat_fixed:
  assumes "\<forall>u\<in>set urls. make_absolute_url ip_ok u = Inr u"
  shows "concat (map (\<lambda>u. case make_absolute_url ip_ok u of Inl e \<Rightarrow> []
                                 | Inr a \<Rightarrow> [DetailRequest a]) urls) = map DetailRequest urls"
  using assms by (induction urls) simp_all

lemma process_brand_page_requests:
  "requests (snd (process_brand_page ip_ok browser brand n st)) =
     requests st @ (case get_pagination_url ip_ok (b_url brand) n of
                      Inl e \<Rightarrow> [] | Inr u \<Rightarrow> [ListingRequest n u])"
  by (simp add: process_brand_page_def Let_def
           split: sum.splits goto_result.splits wait_result.splits)

lemma process_brand_page_raises:
  assumes "get_pagination_url ip_ok (b_url brand) n = Inl e"
  shows "process_brand_page ip_ok browser brand n st = (Inl e, st)"
  using assms by (simp add: process_brand_page_def)

lemma retry_loop_requests:
  assumes "\<And>st. requests (snd (func st)) = requests st @ rs"
  shows "\<exists>m\<le>k. requests (snd (retry_loop k mx i le func st))
                   = requests st @ concat (replicate m rs) \<and> (0 < k \<longrightarrow> 0 < m)"
proof (induction k arbitrary: i le st)
  case 0
  show ?case by (cases le) simp_all
next
  case (Suc k)
  obtain r st1 where f: "func st = (r, st1)" by fastforce
  have r1: "requests st1 = requests st @ rs" using assms [of st] f by simp
  show ?case
  proof (cases r)
    case (Inr v)
    then have "requests (snd (retry_loop (Suc k) mx i le func st))
                 = requests st @ concat (replicate 1 rs)"
      using f r1 by simp
    then show ?thesis by (intro exI [of _ 1]) simp
  next
    case (Inl e)
    let ?st2 = "add_log [LogWarning (''Attempt '' @ str_nat (Suc i) @ ''/'' @ str_nat mx
                                   @ '' failed: '' @ exn_text e @ ''. Retrying in ''
                                   @ str_nat (2 ^ Suc i) @ ''s'')] st1"
    from Suc.IH [of "Suc i" "Some e" ?st2] obtain m where
      m: "m \<le> k" "requests (snd (retry_loop k mx (Suc i) (Some e) func ?st2))
                   = requests ?st2 @ concat (replicate m rs)"
      by blast
    have "requests (snd (retry_loop (Suc k) mx i le func st))
            = requests st @ concat (replicate (Suc m) rs)"
      using f Inl m(2) r1 by simp
    then show ?thesis using m(1) by (intro exI [of _ "Suc m"]) simp
  qed
qed


section \<open>Properties of the rate controller\<close>

lemma uniform_bounds:
  assumes "a \<le> b" and "0 \<le> r" and "r \<le> 1"
  shows "a \<le> uniform a b r \<and> uniform a b r \<le> b"
proof -
  have "0 \<le> (b - a) * r" using assms by simp
  moreover have "(b - a) * r \<le> (b - a) * 1" using assms by (intro mult_left_mono) simp_all
  ultimately show ?thesis by (simp add: uniform_def)
qed

text \<open>
  Claim C5. For a response time \<open>t \<ge> 0\<close>, any status \<open>s\<close> and any draw \<open>r\<close> of the
  generator, with \<open>base = min (t * 1.5) 3\<close>: the delay is \<open>base * 5 + j\<close> with \<open>j\<close> in
  \<open>[10, 15]\<close> when \<open>s \<ge> 429\<close>, otherwise \<open>base * 3 + j\<close> with \<open>j\<close> in \<open>[5, 10]\<close> when
  \<open>s \<ge> 500\<close>, otherwise \<open>base + j\<close> with \<open>j\<close> in \<open>[0, base * 0.5]\<close>, the branches tried in
  this order; so the delay lies in \<open>[base * 5 + 10, base * 5 + 15]\<close> or in
  \<open>[base, base * 1.5]\<close>. (The branches being tried in this order, the second one is never
  taken: a status of 500 or more is also 429 or more.)
\<close>

theorem adaptive_delay_formula:
  assumes "0 \<le> t" and "0 \<le> r" and "r \<le> 1"
  defines "base \<equiv> min (t * 1.5) 3.0"
  shows "adaptive_delay t s r =
           (if s \<ge> 429 then base * 5 + uniform 10 15 r
            else if s \<ge> 500 then base * 3 + uniform 5 10 r
            else base + uniform 0 (base * 0.5) r)
         \<and> uniform 10 15 r \<in> {10 .. 15}
         \<and> uniform 5 10 r \<in> {5 .. 10}
         \<and> uniform 0 (base * 0.5) r \<in> {0 .. base * 0.5}
         \<and> (if s \<ge> 429 then adaptive_delay t s r \<in> {base * 5 + 10 .. base * 5 + 15}
            else adaptive_delay t s r \<in> {base .. base * 1.5})"
proof -
  have b0: "0 \<le> base * 0.5" using assms(1) by (simp add: base_def)
  have u1: "10 \<le> uniform 10 15 r \<and> uniform 10 15 r \<le> 15"
    using uniform_bounds [of 10 15 r] assms by simp
  have u2: "5 \<le> uniform 5 10 r \<and> uniform 5 10 r \<le> 10"
    using uniform_bounds [of 5 10 r] assms by simp
  have u3: "0 \<le> uniform 0 (base * 0.5) r \<and> uniform 0 (base * 0.5) r \<le> base * 0.5"
    using uniform_bounds [of 0 "base * 0.5" r] b0 assms by simp
  have eq: "adaptive_delay t s r =
           (if s \<ge> 429 then base * 5 + uniform 10 15 r
            else if s \<ge> 500 then base * 3 + uniform 5 10 r
            else base + uniform 0 (base * 0.5) r)"
    by (simp add: adaptive_delay_def base_def Let_def)
  show ?thesis using u1 u2 u3 unfolding eq by auto
qed

theorem adaptive_delay_formula_witness:
  "adaptive_delay 1 429 (1/2) = 20 \<and> adaptive_delay 1 429 (1/2) \<in> {17.5 .. 22.5}
   \<and> adaptive_delay 4 200 (1/2) = 3.75 \<and> adaptive_delay 4 200 (1/2) \<in> {3 .. 4.5}
   \<and> adaptive_delay 1 503 (1/2) = 20"
  using adaptive_delay_formula [of 1 "1/2" 429] adaptive_delay_formula [of 4 "1/2" 200]
    adaptive_delay_formula [of 1 "1/2" 503]
  by (simp add: uniform_def)


section \<open>Properties of the progress store\<close>




section \<open>Properties of the dataset store\<close>

lemma save_watches_to_json_stored:
  "fst (save_watches_to_json ws st) =
     (let new_watches = filter (\<lambda>w. w_url w \<notin> set (map w_url (stored st))) ws in
      if new_watches = [] then st
      else st\<lparr>watches_file := Parsed (stored st @ new_watches), file_writes := Suc (file_writes st)\<rparr>)"
  by (cases "watches_file st") (simp_all add: save_watches_to_json_def stored_def Let_def)

lemma save_watches_to_json_present:
  assumes "set (map w_url ws) \<subseteq> set (map w_url (stored st))"
  shows "fst (save_watches_to_json ws st) = st"
proof -
  have "filter (\<lambda>w. w_url w \<notin> set (map w_url (stored st))) ws = []"
    using assms by (auto simp: filter_empty_conv)
  then show ?thesis by (simp add: save_watches_to_json_stored)
qed

lemma stored_save_watches_to_json:
  "stored (fst (save_watches_to_json ws st)) =
     stored st @ filter (\<lambda>w. w_url w \<notin> set (map w_url (stored st))) ws"
  by (simp add: save_watches_to_json_stored Let_def stored_def)

lemma save_watches_to_json_twice:
  "fst (save_watches_to_json ws (fst (save_watches_to_json ws st))) = fst (save_watches_to_json ws st)"
proof (rule save_watches_to_json_present)
  show "set (map w_url ws) \<subseteq> set (map w_url (stored (fst (save_watches_to_json ws st))))"
    by (auto simp: stored_save_watches_to_json)
qed

lemma distinct_stored_save:
  assumes "distinct (map w_url (stored st))" and "distinct (map w_url ws)"
  shows "distinct (map w_url (stored (fst (save_watches_to_json ws st))))"
proof -
  have "set (map w_url (stored st))
          \<inter> set (map w_url (filter (\<lambda>w. w_url w \<notin> set (map w_url (stored st))) ws)) = {}"
    by (auto simp: image_iff)
  then show ?thesis
    using assms by (simp add: stored_save_watches_to_json distinct_map_filter)
qed

lemma count_list_distinct: "distinct xs \<Longrightarrow> x \<in> set xs \<Longrightarrow> count_list xs x = 1"
  by (induction xs) (auto simp: count_list_0_iff)

lemma count_one_stored_save:
  assumes "distinct (map w_url (stored st))" and "distinct (map w_url ws)" and "w \<in> set ws"
  shows "count_list (map w_url (stored (fst (save_watches_to_json ws st)))) (w_url w) = 1"
proof -
  have "w_url w \<in> set (map w_url (stored (fst (save_watches_to_json ws st))))"
    using assms(3) by (auto simp: stored_save_watches_to_json)
  then show ?thesis
    using distinct_stored_save [OF assms(1,2)] by (simp add: count_list_distinct)
qed

text \<open>
  Claim C1, as the code has it. Appending records whose URLs are all stored already
  leaves the store as it is: the same records and no file write. Appending the same
  records a second time leaves the store as the first call left it, so there is no
  second write and no further copy. There is exactly one stored copy of each URL of the
  batch when neither the stored collection nor the batch holds a URL twice.
\<close>

theorem save_watches_to_json_idempotent:
  "(set (map w_url ws) \<subseteq> set (map w_url (stored st)) \<longrightarrow> fst (save_watches_to_json ws st) = st)
   \<and> fst (save_watches_to_json ws (fst (save_watches_to_json ws st))) = fst (save_watches_to_json ws st)
   \<and> (distinct (map w_url (stored st)) \<and> distinct (map w_url ws) \<longrightarrow>
        (\<forall>w \<in> set ws.
           count_list (map w_url (stored (fst (save_watches_to_json ws (fst (save_watches_to_json ws st))))))
             (w_url w) = 1))"
  using save_watches_to_json_present save_watches_to_json_twice count_one_stored_save
  by (simp add: save_watches_to_json_twice)

theorem save_watches_to_json_idempotent_witness:
  "fst (save_watches_to_json [rolex_a] \<lparr>watches_file = Parsed [rolex_a, rolex_b], file_writes = 1\<rparr>)
     = \<lparr>watches_file = Parsed [rolex_a, rolex_b], file_writes = 1\<rparr>
   \<and> fst (save_watches_to_json [rolex_a, rolex_b]
            (fst (save_watches_to_json [rolex_a, rolex_b] \<lparr>watches_file = Absent, file_writes = 0\<rparr>)))
       = \<lparr>watches_file = Parsed [rolex_a, rolex_b], file_writes = 1\<rparr>
   \<and> count_list (map w_url (stored (fst (save_watches_to_json [rolex_a, rolex_b]
            (fst (save_watches_to_json [rolex_a, rolex_b] \<lparr>watches_file = Absent, file_writes = 0\<rparr>))))))
         (w_url rolex_a) = 1"
  using save_watches_to_json_idempotent [of "[rolex_a]" "\<lparr>watches_file = Parsed [rolex_a, rolex_b], file_writes = 1\<rparr>"]
    save_watches_to_json_idempotent [of "[rolex_a, rolex_b]" "\<lparr>watches_file = Absent, file_writes = 0\<rparr>"]
  by (simp add: stored_def save_watches_to_json_def rolex_a_def rolex_b_def)

text \<open>
  Claim C1 as stated fails: the stored collection here holds two records of one URL
  (nothing rewrites stored records), and after appending a record of that URL twice the
  URL still has two stored copies, not one.
\<close>

theorem save_watches_to_json_twice_counterexample:
  "count_list (map w_url (stored (fst (save_watches_to_json [rolex_a]
       (fst (save_watches_to_json [rolex_a] \<lparr>watches_file = Parsed [rolex_a, rolex_a2], file_writes = 1\<rparr>))))))
     (w_url rolex_a) = 2"
  by (simp add: stored_def save_watches_to_json_def rolex_a_def rolex_a2_def)

text \<open>
  Claim C7 at a batch that holds one URL twice: the store is empty before, and both
  records are stored, so the collection holds two records of one URL.
\<close>

theorem save_watches_to_json_duplicate_batch:
  "stored (fst (save_watches_to_json [rolex_a, rolex_a2] \<lparr>watches_file = Absent, file_writes = 0\<rparr>))
     = [rolex_a, rolex_a2]
   \<and> w_url rolex_a = w_url rolex_a2
   \<and> \<not> distinct (map w_url (stored (fst (save_watches_to_json [rolex_a, rolex_a2]
              \<lparr>watches_file = Absent, file_writes = 0\<rparr>))))"
  by (simp add: stored_def save_watches_to_json_def rolex_a_def rolex_a2_def)

text \<open>
  What does hold of every call: the records stored before are a prefix of the records
  stored after, and the URLs stay distinct when the batch itself holds no URL twice.
\<close>

lemma save_watches_to_json_append_only:
  "prefix (stored st) (stored (fst (save_watches_to_json ws st)))
   \<and> (distinct (map w_url (stored st)) \<and> distinct (map w_url ws) \<longrightarrow>
        distinct (map w_url (stored (fst (save_watches_to_json ws st)))))"
  using distinct_stored_save by (simp add: stored_save_watches_to_json)


section \<open>Properties of the pagination driver\<close>

text \<open>
  Claim C2. For a base URL that \<open>urlparse\<close> accepts, with components \<open>p\<close>: page 1 is the
  base URL unchanged. Any other page \<open>n\<close> is \<open>scheme://netloc\<close>, then the new path, then
  \<open>?query\<close> when the query is not empty, where the new path replaces a tail \<open>index.htm\<close> of
  the path by \<open>index-n.htm\<close>, appends \<open>index-n.htm\<close> to a path that ends with a slash, and
  appends \<open>/index-n.htm\<close> to any other path. When the base URL has a scheme and a host,
  parsing the page URL gives back the same scheme, the same host and the same query, and
  the new path.
\<close>

theorem get_pagination_url_correct:
  assumes "urlparse ip_ok base_url [] = Inr p"
  shows "get_pagination_url ip_ok base_url 1 = Inr base_url
     \<and> (n \<noteq> 1 \<longrightarrow> (\<exists>new_path.
           get_pagination_url ip_ok base_url n
             = Inr (scheme p @ ''://'' @ netloc p @ new_path
                    @ (if query p \<noteq> [] then ''?'' @ query p else []))
         \<and> (\<forall>stem. path p = stem @ ''index.htm'' \<longrightarrow>
                new_path = stem @ ''index-'' @ str_int n @ ''.htm'')
         \<and> (\<not> suffix ''index.htm'' (path p) \<and> suffix ''/'' (path p) \<longrightarrow>
                new_path = path p @ ''index-'' @ str_int n @ ''.htm'')
         \<and> (\<not> suffix ''index.htm'' (path p) \<and> \<not> suffix ''/'' (path p) \<longrightarrow>
                new_path = path p @ ''/index-'' @ str_int n @ ''.htm'')
         \<and> (scheme p \<noteq> [] \<and> netloc p \<noteq> [] \<longrightarrow>
                urlparse ip_ok (scheme p @ ''://'' @ netloc p @ new_path
                                @ (if query p \<noteq> [] then ''?'' @ query p else [])) []
                  = Inr \<lparr>scheme = scheme p, netloc = netloc p, path = new_path, params = [],
                          query = query p, fragment = []\<rparr>)))"
proof (intro conjI impI)
  show "get_pagination_url ip_ok base_url 1 = Inr base_url"
    using assms by (simp add: get_pagination_url_def)
next
  assume n1: "n \<noteq> 1"
  let ?m = "''index-'' @ str_int n @ ''.htm''"
  define stem where
    "stem = (if suffix ''index.htm'' (path p) then take (length (path p) - 9) (path p)
             else if suffix ''/'' (path p) then path p else path p @ ''/'')"
  define new_path where "new_path = stem @ ?m"
  have res: "get_pagination_url ip_ok base_url n
             = Inr (scheme p @ ''://'' @ netloc p @ new_path
                    @ (if query p \<noteq> [] then ''?'' @ query p else []))"
    unfolding get_pagination_url_unfold [OF assms n1] new_path_def stem_def by simp
  have st: "(path p = stem @ ''index.htm'') \<or> (path p = stem \<and> suffix ''/'' stem)
             \<or> (stem = path p @ ''/'')"
  proof (cases "suffix ''index.htm'' (path p)")
    case True
    then obtain a where a: "path p = a @ ''index.htm''" by (auto simp: suffix_def)
    then have "stem = a" using True by (simp add: stem_def)
    then show ?thesis using a by simp
  next
    case False
    then show ?thesis by (simp add: stem_def)
  qed
  have c1: "\<forall>s. path p = s @ ''index.htm'' \<longrightarrow> new_path = s @ ?m"
  proof (intro allI impI)
    fix s assume s: "path p = s @ ''index.htm''"
    then have "suffix ''index.htm'' (path p)" by (simp add: suffix_def)
    then have "stem = s" using s by (simp add: stem_def)
    then show "new_path = s @ ?m" by (simp add: new_path_def)
  qed
  have c2: "\<not> suffix ''index.htm'' (path p) \<and> suffix ''/'' (path p) \<longrightarrow> new_path = path p @ ?m"
    by (simp add: new_path_def stem_def)
  have c3: "\<not> suffix ''index.htm'' (path p) \<and> \<not> suffix ''/'' (path p) \<longrightarrow>
              new_path = path p @ ''/index-'' @ str_int n @ ''.htm''"
    by (simp add: new_path_def stem_def)
  have c4: "urlparse ip_ok (scheme p @ ''://'' @ netloc p @ new_path
                                @ (if query p \<noteq> [] then ''?'' @ query p else [])) []
                  = Inr \<lparr>scheme = scheme p, netloc = netloc p, path = new_path, params = [],
                          query = query p, fragment = []\<rparr>"
    if sn: "scheme p \<noteq> [] \<and> netloc p \<noteq> []"
  proof -
    have ok: "parsed_ok ip_ok p" using assms by (rule urlparse_facts)
    note np = new_path_ok [OF ok _ new_path_def st]
    have nl: "netloc p \<noteq> []" using sn by simp
    have so: "scheme_ok (scheme p)" using ok sn by (simp add: parsed_ok_def)
    have safe: "\<forall>c \<in> set (scheme p) \<union> set (netloc p) \<union> set new_path \<union> set (query p).
                  \<not> unsafe_url_byte c"
      using ok np [OF nl] unfolding parsed_ok_def by blast
    show ?thesis
      using ok np [OF nl] unfolding parsed_ok_def
      by (intro urlparse_compose so safe) blast+
  qed
  show "\<exists>new_path.
           get_pagination_url ip_ok base_url n
             = Inr (scheme p @ ''://'' @ netloc p @ new_path
                    @ (if query p \<noteq> [] then ''?'' @ query p else []))
         \<and> (\<forall>stem. path p = stem @ ''index.htm'' \<longrightarrow>
                new_path = stem @ ''index-'' @ str_int n @ ''.htm'')
         \<and> (\<not> suffix ''index.htm'' (path p) \<and> suffix ''/'' (path p) \<longrightarrow>
                new_path = path p @ ''index-'' @ str_int n @ ''.htm'')
         \<and> (\<not> suffix ''index.htm'' (path p) \<and> \<not> suffix ''/'' (path p) \<longrightarrow>
                new_path = path p @ ''/index-'' @ str_int n @ ''.htm'')
         \<and> (scheme p \<noteq> [] \<and> netloc p \<noteq> [] \<longrightarrow>
                urlparse ip_ok (scheme p @ ''://'' @ netloc p @ new_path
                                @ (if query p \<noteq> [] then ''?'' @ query p else [])) []
                  = Inr \<lparr>scheme = scheme p, netloc = netloc p, path = new_path, params = [],
                          query = query p, fragment = []\<rparr>)"
    using res c1 c2 c3 c4 by (intro exI [of _ new_path]) blast
qed

lemma urlparse_brand_index:
  "urlparse (\<lambda>h. True) ''https://x/brand/index.htm'' []
     = Inr \<lparr>scheme = ''https'', netloc = ''x'', path = ''/brand/index.htm'', params = [],
             query = [], fragment = []\<rparr>"
  by code_simp

lemma urlparse_brand_slash:
  "urlparse (\<lambda>h. True) ''https://x/brand/'' []
     = Inr \<lparr>scheme = ''https'', netloc = ''x'', path = ''/brand/'', params = [],
             query = [], fragment = []\<rparr>"
  by code_simp

lemma str_int_examples: "str_int 5 = ''5''" "str_int 2 = ''2''"
  by code_simp+

theorem get_pagination_url_correct_witness:
  "get_pagination_url (\<lambda>h. True) ''https://x/brand/index.htm'' 1 = Inr ''https://x/brand/index.htm''
   \<and> get_pagination_url (\<lambda>h. True) ''https://x/brand/index.htm'' 5 = Inr ''https://x/brand/index-5.htm''
   \<and> get_pagination_url (\<lambda>h. True) ''https://x/brand/'' 2 = Inr ''https://x/brand/index-2.htm''
   \<and> urlparse (\<lambda>h. True) ''https://x/brand/index-5.htm'' []
       = Inr \<lparr>scheme = ''https'', netloc = ''x'', path = ''/brand/index-5.htm'', params = [],
               query = [], fragment = []\<rparr>"
  using get_pagination_url_correct [OF urlparse_brand_index, of 5]
    get_pagination_url_correct [OF urlparse_brand_slash, of 2]
  by (simp add: str_int_examples suffix_to_prefix)


section \<open>Properties of URL absolutization\<close>

text \<open>
  Claim C10, as the code has it. A string that starts with \<open>http://\<close> or \<open>https://\<close> is
  returned unchanged. Any other string \<open>u\<close> is stripped of its leading slashes, giving \<open>v\<close>,
  and the result is \<open>urljoin(BASE_URL, v)\<close>: the base origin when \<open>v\<close> is empty; and with
  \<open>p\<close> the components of \<open>v\<close> parsed with the default scheme \<open>https\<close>, the string \<open>v\<close>
  itself when \<open>p\<close> has another scheme, a URL starting with \<open>https://\<close> and the network
  location of \<open>p\<close> when \<open>p\<close> has one, and a URL on the base origin otherwise. Applying
  \<open>make_absolute_url\<close> to its own result changes nothing.
\<close>

theorem make_absolute_url_idempotent:
  "((prefix ''http://'' u \<or> prefix ''https://'' u) \<longrightarrow> make_absolute_url ip_ok u = Inr u)
   \<and> (\<not> (prefix ''http://'' u \<or> prefix ''https://'' u) \<longrightarrow>
        make_absolute_url ip_ok u = urljoin ip_ok BASE_URL (dropWhile (\<lambda>c. c = CHR ''/'') u)
        \<and> (\<forall>r. make_absolute_url ip_ok u = Inr r \<longrightarrow>
              (dropWhile (\<lambda>c. c = CHR ''/'') u = [] \<and> r = BASE_URL)
              \<or> (\<exists>p. urlparse ip_ok (dropWhile (\<lambda>c. c = CHR ''/'') u) ''https'' = Inr p
                     \<and> ((scheme p \<noteq> ''https'' \<and> r = dropWhile (\<lambda>c. c = CHR ''/'') u)
                        \<or> (scheme p = ''https'' \<and> netloc p \<noteq> []
                             \<and> prefix (''https://'' @ netloc p) r)
                        \<or> (scheme p = ''https'' \<and> netloc p = [] \<and> prefix BASE_URL r)))))
   \<and> (case make_absolute_url ip_ok u of Inl e \<Rightarrow> Inl e | Inr r \<Rightarrow> make_absolute_url ip_ok r)
       = make_absolute_url ip_ok u"
proof (intro conjI impI allI)
  assume "prefix ''http://'' u \<or> prefix ''https://'' u"
  then show "make_absolute_url ip_ok u = Inr u" by (simp add: make_absolute_url_def)
next
  assume "\<not> (prefix ''http://'' u \<or> prefix ''https://'' u)"
  then show "make_absolute_url ip_ok u = urljoin ip_ok BASE_URL (dropWhile (\<lambda>c. c = CHR ''/'') u)"
    by (simp add: make_absolute_url_def)
next
  fix r
  define v where "v = dropWhile (\<lambda>c. c = CHR ''/'') u"
  assume "\<not> (prefix ''http://'' u \<or> prefix ''https://'' u)" and "make_absolute_url ip_ok u = Inr r"
  then have j: "urljoin ip_ok BASE_URL v = Inr r" by (simp add: make_absolute_url_def v_def)
  from urljoin_BASE_URL_cases [OF j]
  have "(v = [] \<and> r = BASE_URL)
        \<or> (\<exists>p. urlparse ip_ok v ''https'' = Inr p
               \<and> ((scheme p \<noteq> ''https'' \<and> r = v)
                  \<or> (scheme p = ''https'' \<and> netloc p \<noteq> [] \<and> prefix (''https://'' @ netloc p) r)
                  \<or> (scheme p = ''https'' \<and> netloc p = [] \<and> prefix BASE_URL r)))"
    using urlunparse_on_base urlunparse_on_host by (elim disjE exE conjE) auto
  then show "(dropWhile (\<lambda>c. c = CHR ''/'') u = [] \<and> r = BASE_URL)
              \<or> (\<exists>p. urlparse ip_ok (dropWhile (\<lambda>c. c = CHR ''/'') u) ''https'' = Inr p
                     \<and> ((scheme p \<noteq> ''https'' \<and> r = dropWhile (\<lambda>c. c = CHR ''/'') u)
                        \<or> (scheme p = ''https'' \<and> netloc p \<noteq> []
                             \<and> prefix (''https://'' @ netloc p) r)
                        \<or> (scheme p = ''https'' \<and> netloc p = [] \<and> prefix BASE_URL r)))"
    unfolding v_def .
next
  show "(case make_absolute_url ip_ok u of Inl e \<Rightarrow> Inl e | Inr r \<Rightarrow> make_absolute_url ip_ok r)
       = make_absolute_url ip_ok u"
    using make_absolute_url_fixed [of ip_ok u]
    by (cases "make_absolute_url ip_ok u") simp_all
qed

lemma make_absolute_url_examples:
  "make_absolute_url (\<lambda>h. True) ''/rolex/a.htm'' = Inr ''https://www.chrono24.com/rolex/a.htm''"
  "make_absolute_url (\<lambda>h. True) ''https://www.chrono24.com/rolex/a.htm''
     = Inr ''https://www.chrono24.com/rolex/a.htm''"
  "urlparse (\<lambda>h. True) ''rolex/a.htm'' ''https''
     = Inr \<lparr>scheme = ''https'', netloc = [], path = ''rolex/a.htm'', params = [], query = [],
             fragment = []\<rparr>"
  "urljoin (\<lambda>h. True) BASE_URL ''rolex/a.htm'' = Inr ''https://www.chrono24.com/rolex/a.htm''"
  "prefix BASE_URL ''https://www.chrono24.com/rolex/a.htm''"
  by code_simp+

theorem make_absolute_url_idempotent_witness:
  "make_absolute_url (\<lambda>h. True) ''https://www.chrono24.com/rolex/a.htm''
     = Inr ''https://www.chrono24.com/rolex/a.htm''
   \<and> make_absolute_url (\<lambda>h. True) ''/rolex/a.htm'' = Inr ''https://www.chrono24.com/rolex/a.htm''
   \<and> prefix BASE_URL ''https://www.chrono24.com/rolex/a.htm''
   \<and> (case make_absolute_url (\<lambda>h. True) ''/rolex/a.htm'' of
         Inl e \<Rightarrow> Inl e | Inr r \<Rightarrow> make_absolute_url (\<lambda>h. True) r)
       = Inr ''https://www.chrono24.com/rolex/a.htm''"
  using make_absolute_url_idempotent [of "''https://www.chrono24.com/rolex/a.htm''" "\<lambda>h. True"]
    make_absolute_url_idempotent [of "''/rolex/a.htm''" "\<lambda>h. True"]
  by (simp add: make_absolute_url_examples)

text \<open>
  Claim C10 as stated fails on a reference that carries a scheme of its own: the result of
  \<open>urljoin\<close> is that reference, which is not on the base origin.
\<close>

theorem make_absolute_url_mailto_counterexample:
  "make_absolute_url (\<lambda>h. True) ''mailto:info@chrono24.com'' = Inr ''mailto:info@chrono24.com''
   \<and> \<not> prefix ''http://'' ''mailto:info@chrono24.com''
   \<and> \<not> prefix ''https://'' ''mailto:info@chrono24.com''
   \<and> \<not> prefix BASE_URL ''mailto:info@chrono24.com''"
  by code_simp


section \<open>Properties of the specification table\<close>

lemma spec_entry_unfold:
  assumes "key_element row = Some k" and "value_element row = Some v"
  shows "spec_entry row =
           (if lower (strip k) = ''basic info'' then None
            else if lower (strip k) = ''description''
                    \<and> lower (strip (strip (re_sub_doc_ready (strip v)))) = ''description''
            then None
            else if strip k \<noteq> [] then Some (strip k, strip (re_sub_doc_ready (strip v)))
            else None)"
  using assms by (simp add: spec_entry_def Let_def)

lemma map_of_spec_row:
  "map_of (spec_row row specs) k =
     (case spec_entry row of
        None \<Rightarrow> map_of specs k
      | Some (key, v) \<Rightarrow> if k = key then Some v else map_of specs k)"
  by (auto simp: spec_row_def update_conv' split: option.splits)

lemma map_of_fold_spec_row_other:
  assumes "\<forall>r\<in>set rows. \<forall>x. spec_entry r \<noteq> Some (k, x)"
  shows "map_of (fold spec_row rows specs) k = map_of specs k"
  using assms
proof (induction rows arbitrary: specs)
  case Nil
  then show ?case by simp
next
  case (Cons r rows)
  have "map_of (spec_row r specs) k = map_of specs k"
    using Cons.prems by (auto simp: map_of_spec_row split: option.splits)
  then show ?case using Cons by simp
qed

lemma map_of_fold_spec_row_last:
  assumes "spec_entry r = Some (k, v)" and "\<forall>r\<in>set later. \<forall>x. spec_entry r \<noteq> Some (k, x)"
  shows "map_of (fold spec_row (earlier @ [r] @ later) specs) k = Some v"
proof -
  have "map_of (fold spec_row later (spec_row r (fold spec_row earlier specs))) k
          = map_of (spec_row r (fold spec_row earlier specs)) k"
    using assms(2) by (rule map_of_fold_spec_row_other)
  then show ?thesis using assms(1) by (simp add: map_of_spec_row)
qed

text \<open>
  Claim C4. For a row whose key cell has the text \<open>k\<close> and whose value cell has the text
  \<open>v\<close>: the row is dropped when the stripped key lower-cases to \<open>basic info\<close>, whatever
  the value; when the stripped key lower-cases to \<open>description\<close>, the row is dropped if and
  only if its value (stripped, cleared of the inlined loader script, stripped) lower-cases
  to \<open>description\<close>; a row with an empty key is dropped; a row that is kept is stored
  under its key as extracted, with its case, and the value found under a key after a
  sequence of rows is that of the last kept row with this key.
\<close>

theorem spec_entry_filter:
  assumes "key_element row = Some k" and "value_element row = Some v"
  shows "(lower (strip k) = ''basic info'' \<longrightarrow> spec_entry row = None)
     \<and> (lower (strip k) = ''description'' \<longrightarrow>
          (spec_entry row = None
             \<longleftrightarrow> lower (strip (strip (re_sub_doc_ready (strip v)))) = ''description''))
     \<and> (strip k = [] \<longrightarrow> spec_entry row = None)
     \<and> (spec_entry row \<noteq> None \<longrightarrow>
          spec_entry row = Some (strip k, strip (re_sub_doc_ready (strip v))))
     \<and> (\<forall>earlier later specs.
          spec_entry row \<noteq> None
          \<and> (\<forall>r\<in>set later. \<forall>x. spec_entry r \<noteq> Some (strip k, x)) \<longrightarrow>
          map_of (fold spec_row (earlier @ [row] @ later) specs) (strip k)
            = Some (strip (re_sub_doc_ready (strip v))))"
proof -
  note u = spec_entry_unfold [OF assms]
  have ne: "''description'' \<noteq> ''basic info''" by simp
  have a: "lower (strip k) = ''basic info'' \<longrightarrow> spec_entry row = None"
    unfolding u by simp
  have b: "lower (strip k) = ''description'' \<longrightarrow>
          (spec_entry row = None
             \<longleftrightarrow> lower (strip (strip (re_sub_doc_ready (strip v)))) = ''description'')"
  proof
    assume d: "lower (strip k) = ''description''"
    then have "strip k \<noteq> []" by (auto simp: lower_def)
    then show "spec_entry row = None
             \<longleftrightarrow> lower (strip (strip (re_sub_doc_ready (strip v)))) = ''description''"
      unfolding u using d by simp
  qed
  have c: "strip k = [] \<longrightarrow> spec_entry row = None"
    unfolding u by simp
  have d: "spec_entry row \<noteq> None \<longrightarrow>
          spec_entry row = Some (strip k, strip (re_sub_doc_ready (strip v)))"
    unfolding u by (simp split: if_splits)
  have e: "\<forall>earlier later specs.
          spec_entry row \<noteq> None
          \<and> (\<forall>r\<in>set later. \<forall>x. spec_entry r \<noteq> Some (strip k, x)) \<longrightarrow>
          map_of (fold spec_row (earlier @ [row] @ later) specs) (strip k)
            = Some (strip (re_sub_doc_ready (strip v)))"
    using d map_of_fold_spec_row_last by blast
  show ?thesis using a b c d e by blast
qed

lemma spec_entry_examples:
  "spec_entry (row_of ''Basic Info'' ''Listing code: ABC'') = None"
  "spec_entry (row_of ''Description'' ''Description'') = None"
  "spec_entry (row_of ''Description'' ''A fine chronometer'') = Some (''Description'', ''A fine chronometer'')"
  "spec_entry (row_of '' Case material '' ''Steel'') = Some (''Case material'', ''Steel'')"
  "spec_entry (row_of ''Case material'' ''Gold'') = Some (''Case material'', ''Gold'')"
  "spec_entry (row_of '' '' ''Steel'') = None"
  "fold spec_row [row_of ''Basic Info'' ''x'', row_of ''Case material'' ''Steel'',
                  row_of ''Year'' ''2020'', row_of ''Case material'' ''Gold''] []
     = [(''Case material'', ''Gold''), (''Year'', ''2020'')]"
  by code_simp+


lemma row_of_elements: "key_element (row_of k v) = Some k" "value_element (row_of k v) = Some v"
  by (simp_all add: row_of_def key_element_def value_element_def)

theorem spec_entry_filter_witness:
  "spec_entry (row_of ''Basic Info'' ''Listing code: ABC'') = None
   \<and> spec_entry (row_of ''Description'' ''Description'') = None
   \<and> spec_entry (row_of ''Description'' ''A fine chronometer'')
       = Some (''Description'', ''A fine chronometer'')
   \<and> spec_entry (row_of '' '' ''Steel'') = None
   \<and> map_of (fold spec_row ([row_of ''Case material'' ''Steel''] @ [row_of ''Case material'' ''Gold'']
                              @ [row_of ''Year'' ''2020'']) []) ''Case material'' = Some ''Gold''"
proof -
  have l: "\<forall>r\<in>set [row_of ''Year'' ''2020'']. \<forall>x. spec_entry r \<noteq> Some (''Case material'', x)"
    by (simp add: spec_entry_unfold [OF row_of_elements]) code_simp
  have s: "strip ''Case material'' = ''Case material''" "strip ''Gold'' = ''Gold''"
    "re_sub_doc_ready ''Gold'' = ''Gold''"
    by code_simp+
  have g: "spec_entry (row_of ''Case material'' ''Gold'') \<noteq> None"
    by (simp add: spec_entry_examples)
  from spec_entry_filter [OF row_of_elements, of "''Case material''" "''Gold''"] g l
  have "map_of (fold spec_row ([row_of ''Case material'' ''Steel''] @ [row_of ''Case material'' ''Gold'']
                              @ [row_of ''Year'' ''2020'']) []) ''Case material'' = Some ''Gold''"
    unfolding s by blast
  then show ?thesis
    using spec_entry_filter [OF row_of_elements, of "''Description''" "''A fine chronometer''"]
    by (simp add: spec_entry_examples)
qed

end
